theory Spec2Isabelle
  imports Main
begin

text \<open>
  A shallow embedding of three pieces of the repository and the properties proved of them:
  the code-host connection resolver of the campaigns GraphQL API
  (enterprise/internal/campaigns/resolvers/code\_host\_connection.go), the stress benchmark
  of the language-server proxy (package xlang\_test: \<open>BenchmarkStress\<close> and
  \<open>doStressTestOpForPosition\<close>), and the session registry and idle reaper of the proxy that
  the benchmark drives.  All definitions come first, the properties follow.
\<close>

section \<open>Go values used by both programs\<close>

text \<open>
  A Go \<open>error\<close> is modelled by its message; \<open>nil\<close> is \<open>None\<close>.  Go's \<open>int\<close> is
  a 64-bit signed integer: it is modelled as \<open>int\<close>, and every addition or subtraction of the
  source whose operands are not bounded by the program goes through \<open>wrap64\<close>.
\<close>

type_synonym error = string

definition wrap64 :: "int \<Rightarrow> int" where
  "wrap64 x = (x + 2 ^ 63) mod 2 ^ 64 - 2 ^ 63"

definition wrap32 :: "int \<Rightarrow> int" where
  "wrap32 x = (x + 2 ^ 31) mod 2 ^ 32 - 2 ^ 31"

text \<open>
  A call either returns or panics.  A panic unwinds through the callers, so every function
  that calls a panicking one panics as well.
\<close>

datatype 'a result = Returned 'a | Panicked

text \<open>\<open>strconv.Itoa\<close>: the decimal rendering of an \<open>int\<close>.\<close>

definition digit_char :: "nat \<Rightarrow> char" where
  "digit_char d = ''0123456789'' ! d"

fun utoa :: "nat \<Rightarrow> string" where
  "utoa n = (if n < 10 then [digit_char n] else utoa (n div 10) @ [digit_char (n mod 10)])"

declare utoa.simps [simp del]

definition Itoa :: "int \<Rightarrow> string" where
  "Itoa i = (if i < 0 then CHR ''-'' # utoa (nat (- i)) else utoa (nat i))"

section \<open>The code-host connection resolver (code\_host\_connection.go)\<close>

subsection \<open>Data\<close>

record CodeHost =
  ch_ExternalServiceID :: string
  ch_ExternalServiceType :: string

text \<open>
  Of a credential's authenticator the resolver only asks whether it implements
  \<open>auth.AuthenticatorWithSSH\<close>.
\<close>

record UserCredential =
  cred_ExternalServiceID :: string
  cred_ExternalServiceType :: string
  cred_WithSSH :: bool

text \<open>
  Of a repository the resolver reads \<open>ExternalRepo.ServiceID\<close> and calls \<open>CloneURLs()\<close>.
\<close>

record Repo =
  repo_ServiceID :: string
  repo_CloneURLs :: "string list"

record idType =
  externalServiceID :: string
  externalServiceType :: string

record LimitOffset =
  Limit :: int
  Offset :: int

text \<open>
  The store as one call finds it.  \<open>ListCodeHosts\<close> returns a slice together with an error;
  the two \<open>List\<close> calls return rows or an error.  The rows are pointers to scanned rows and
  never \<open>nil\<close>, so they are plain values here.
\<close>

record store =
  ListCodeHosts :: "CodeHost list \<times> error option"
  UserCredentialsList :: "int \<Rightarrow> error + UserCredential list"
  ReposList :: "int list \<Rightarrow> error + Repo list"

text \<open>
  The resolver struct.  \<open>once\<close> is the done flag of \<open>sync.Once\<close>.  A \<open>nil\<close> slice and an
  empty slice are both \<open>[]\<close>, a \<open>nil\<close> map and an empty map are both \<open>Map.empty\<close>: the code
  only takes lengths, ranges over them and reads keys.
\<close>

record resolver =
  onlyWithoutCredential :: bool
  repos :: "int list"
  userID :: int
  limitOffset :: LimitOffset
  once :: bool
  chs :: "CodeHost list"
  chsPage :: "CodeHost list"
  credsByIDType :: "idType \<rightharpoonup> UserCredential"
  chsErr :: "error option"

text \<open>The struct literal of a new resolver leaves the last five fields at their zero values.\<close>

definition newResolver :: "bool \<Rightarrow> int list \<Rightarrow> int \<Rightarrow> LimitOffset \<Rightarrow> resolver" where
  "newResolver only rs uid lo =
     \<lparr>onlyWithoutCredential = only, repos = rs, userID = uid, limitOffset = lo,
      once = False, chs = [], chsPage = [], credsByIDType = Map.empty, chsErr = None\<rparr>"

subsection \<open>The body of \<open>compute\<close>\<close>

text \<open>Lines 101--108: the credentials indexed by (service id, service type).\<close>

definition cred_key :: "UserCredential \<Rightarrow> idType" where
  "cred_key cred = \<lparr>externalServiceID = cred_ExternalServiceID cred,
                    externalServiceType = cred_ExternalServiceType cred\<rparr>"

definition ch_key :: "CodeHost \<Rightarrow> idType" where
  "ch_key ch = \<lparr>externalServiceID = ch_ExternalServiceID ch,
                externalServiceType = ch_ExternalServiceType ch\<rparr>"

fun indexCreds :: "UserCredential list \<Rightarrow> (idType \<rightharpoonup> UserCredential) \<Rightarrow> (idType \<rightharpoonup> UserCredential)" where
  "indexCreds [] m = m"
| "indexCreds (cred # creds) m = indexCreds creds (m(cred_key cred \<mapsto> cred))"

text \<open>
  Lines 117--123.  A slice of repo pointers is a list of options, \<open>None\<close> the \<open>nil\<close> pointer.
  Reading a missing key of a Go map gives the \<open>nil\<close> slice.  \<open>make([]*types.Repo, 1)\<close> is
  a slice of length one holding the zero value, \<open>nil\<close>.
\<close>

definition slice_at :: "(string \<rightharpoonup> Repo option list) \<Rightarrow> string \<Rightarrow> Repo option list" where
  "slice_at m k = (case m k of None \<Rightarrow> [] | Some xs \<Rightarrow> xs)"

fun groupRepos :: "Repo list \<Rightarrow> (string \<rightharpoonup> Repo option list) \<Rightarrow> (string \<rightharpoonup> Repo option list)" where
  "groupRepos [] m = m"
| "groupRepos (repo # rs) m =
     (let k = repo_ServiceID repo;
          m1 = (case m k of None \<Rightarrow> m(k \<mapsto> [None]) | Some _ \<Rightarrow> m)
      in groupRepos rs (m1(k \<mapsto> slice_at m1 k @ [Some repo])))"

text \<open>
  Lines 137--149.  \<open>url.Parse\<close> is a parameter: it gives an error or the scheme of the parsed
  URL.  The \<open>break\<close> leaves the loop over one repo's clone URLs only.  Calling \<open>CloneURLs\<close> on
  a \<open>nil\<close> repo dereferences it: a panic.
\<close>

datatype 'a loop = Ok 'a | Err error | Panic

fun scanURLs :: "(string \<Rightarrow> error + string) \<Rightarrow> string list \<Rightarrow> bool \<Rightarrow> error + bool" where
  "scanURLs parse [] isSSH = Inr isSSH"
| "scanURLs parse (u # us) isSSH =
     (case parse u of
        Inl e \<Rightarrow> Inl e
      | Inr scheme \<Rightarrow> if scheme = ''ssh'' then Inr True else scanURLs parse us isSSH)"

fun scanRepos :: "(string \<Rightarrow> error + string) \<Rightarrow> Repo option list \<Rightarrow> bool \<Rightarrow> bool loop" where
  "scanRepos parse [] isSSH = Ok isSSH"
| "scanRepos parse (None # rs) isSSH = Panic"
| "scanRepos parse (Some repo # rs) isSSH =
     (case scanURLs parse (repo_CloneURLs repo) isSSH of
        Inl e \<Rightarrow> Err e
      | Inr b \<Rightarrow> scanRepos parse rs b)"

text \<open>Lines 125--157: the code hosts without a (sufficient) credential.\<close>

fun filterHosts :: "(string \<Rightarrow> error + string) \<Rightarrow> (string \<rightharpoonup> Repo option list) \<Rightarrow>
    (idType \<rightharpoonup> UserCredential) \<Rightarrow> CodeHost list \<Rightarrow> CodeHost list \<Rightarrow> CodeHost list loop" where
  "filterHosts parse byID creds [] acc = Ok acc"
| "filterHosts parse byID creds (ch # rest) acc =
     (case byID (ch_ExternalServiceID ch) of
        None \<Rightarrow> Err ''no repos found''
      | Some rs \<Rightarrow>
          (case scanRepos parse rs False of
             Panic \<Rightarrow> Panic
           | Err e \<Rightarrow> Err e
           | Ok isSSH \<Rightarrow>
               filterHosts parse byID creds rest
                 (case creds (ch_key ch) of
                    None \<Rightarrow> acc @ [ch]
                  | Some cred \<Rightarrow> if isSSH \<and> \<not> cred_WithSSH cred then acc @ [ch] else acc)))"

text \<open>
  A slice expression \<open>s[lo:hi]\<close> panics unless \<open>0 \<le> lo \<le> hi \<le> cap(s)\<close>.  In \<open>compute\<close> the
  upper index is \<open>len(s)\<close> or was capped to at most \<open>len(s)\<close>, so the bound checked here
  is the length.
\<close>

definition slice :: "'a list \<Rightarrow> int \<Rightarrow> int \<Rightarrow> 'a list option" where
  "slice s lo hi =
     (if 0 \<le> lo \<and> lo \<le> hi \<and> hi \<le> int (length s)
      then Some (take (nat (hi - lo)) (drop (nat lo) s)) else None)"

text \<open>Lines 161--179: the page slice; \<open>None\<close> when a slice expression panics.\<close>

definition paginate :: "resolver \<Rightarrow> resolver option" where
  "paginate c =
     (let afterIdx = Offset (limitOffset c); n = int (length (chs c)) in
      if afterIdx \<ge> n then Some c
      else
        let limit = Limit (limitOffset c) in
        if limit \<le> 0 then
          (case slice (chs c) afterIdx n of
             None \<Rightarrow> None
           | Some p \<Rightarrow> Some (c\<lparr>chsPage := p\<rparr>))
        else
          let limit' = (if wrap64 (limit + afterIdx) \<ge> n then wrap64 (n - afterIdx) else limit) in
          (case slice (chs c) afterIdx (wrap64 (limit' + afterIdx)) of
             None \<Rightarrow> None
           | Some p \<Rightarrow> Some (c\<lparr>chsPage := p\<rparr>)))"

text \<open>
  Lines 84--179, the function passed to \<open>once.Do\<close>.  It returns the resolver as the body
  leaves it and says whether the body returned or panicked; an early \<open>return\<close> with
  \<open>chsErr\<close> set is a normal return.
\<close>

definition computeBody :: "(string \<Rightarrow> error + string) \<Rightarrow> store \<Rightarrow> resolver \<Rightarrow> resolver \<times> bool" where
  "computeBody parse st c =
     (let c1 = c\<lparr>chs := fst (ListCodeHosts st), chsErr := snd (ListCodeHosts st)\<rparr> in
      if chsErr c1 \<noteq> None then (c1, False)
      else
        (case UserCredentialsList st (userID c1) of
           Inl e \<Rightarrow> (c1\<lparr>chsErr := Some e\<rparr>, False)
         | Inr creds \<Rightarrow>
             let c2 = c1\<lparr>credsByIDType := indexCreds creds Map.empty\<rparr> in
             if onlyWithoutCredential c2 then
               (case ReposList st (repos c2) of
                  Inl e \<Rightarrow> (c2\<lparr>chsErr := Some e\<rparr>, False)
                | Inr rs \<Rightarrow>
                    (case filterHosts parse (groupRepos rs Map.empty) (credsByIDType c2) (chs c2) [] of
                       Err e \<Rightarrow> (c2\<lparr>chsErr := Some e\<rparr>, False)
                     | Panic \<Rightarrow> (c2, True)
                     | Ok hosts \<Rightarrow>
                         (case paginate (c2\<lparr>chs := hosts\<rparr>) of
                            Some c3 \<Rightarrow> (c3, False)
                          | None \<Rightarrow> (c2\<lparr>chs := hosts\<rparr>, True))))
             else
               (case paginate c2 of
                  Some c3 \<Rightarrow> (c3, False)
                | None \<Rightarrow> (c2, True))))"

subsection \<open>\<open>compute\<close> and the three methods\<close>

text \<open>
  \<open>sync.Once.Do\<close> runs its argument only while the done flag is unset, and sets the flag when
  the argument returns or panics (the flag is set in a deferred call).  Concurrent callers are
  serialised by the mutex of \<open>Once\<close>, so calls are modelled one after the other.  The second
  component tells whether this call ran the body.
\<close>

type_synonym computed = "CodeHost list \<times> CodeHost list \<times> (idType \<rightharpoonup> UserCredential) \<times> error option"

definition computedOf :: "resolver \<Rightarrow> computed" where
  "computedOf c = (chs c, chsPage c, credsByIDType c, chsErr c)"

definition compute :: "(string \<Rightarrow> error + string) \<Rightarrow> store \<Rightarrow> resolver \<Rightarrow> resolver \<times> bool \<times> computed result" where
  "compute parse st c =
     (if once c then (c, False, Returned (computedOf c))
      else
        (case computeBody parse st c of
           (c', False) \<Rightarrow> (c'\<lparr>once := True\<rparr>, True, Returned (computedOf c'))
         | (c', True) \<Rightarrow> (c'\<lparr>once := True\<rparr>, True, Panicked)))"

datatype PageInfo = NextPageCursor string | HasNextPage bool

record node =
  externalServiceKind :: string
  externalServiceURL :: string
  credential :: "UserCredential option"

text \<open>
  Each method calls \<open>compute\<close> once and works on what it returned.  The part after the
  call is a function of the returned values: lines 42--45, 50--59 and 64--78.
  \<open>extsvc.TypeToKind\<close> is a parameter.
\<close>

definition totalCountOf :: "computed \<Rightarrow> int \<times> error option" where
  "totalCountOf t =
     (case t of (all, page, creds, err) \<Rightarrow>
        if err \<noteq> None then (0, err) else (wrap32 (int (length all)), err))"

definition pageInfoOf :: "LimitOffset \<Rightarrow> computed \<Rightarrow> error + PageInfo" where
  "pageInfoOf lo t =
     (case t of (all, page, creds, err) \<Rightarrow>
        (case err of
           Some e \<Rightarrow> Inl e
         | None \<Rightarrow>
             let idx = wrap64 (Limit lo + Offset lo) in
             if idx < int (length all) then Inr (NextPageCursor (Itoa idx))
             else Inr (HasNextPage False)))"

definition nodeFor :: "(string \<Rightarrow> string) \<Rightarrow> (idType \<rightharpoonup> UserCredential) \<Rightarrow> CodeHost \<Rightarrow> node" where
  "nodeFor TypeToKind creds ch =
     \<lparr>externalServiceKind = TypeToKind (ch_ExternalServiceType ch),
      externalServiceURL = ch_ExternalServiceID ch,
      credential = creds (ch_key ch)\<rparr>"

definition nodesOf :: "(string \<Rightarrow> string) \<Rightarrow> computed \<Rightarrow> error + node list" where
  "nodesOf TypeToKind t =
     (case t of (all, page, creds, err) \<Rightarrow>
        (case err of
           Some e \<Rightarrow> Inl e
         | None \<Rightarrow> Inr (map (nodeFor TypeToKind creds) page)))"

fun map_result :: "('a \<Rightarrow> 'b) \<Rightarrow> 'a result \<Rightarrow> 'b result" where
  "map_result f (Returned x) = Returned (f x)"
| "map_result f Panicked = Panicked"

definition TotalCount :: "(string \<Rightarrow> error + string) \<Rightarrow> store \<Rightarrow> resolver \<Rightarrow>
    resolver \<times> bool \<times> (int \<times> error option) result" where
  "TotalCount parse st c =
     (case compute parse st c of (c', executed, r) \<Rightarrow> (c', executed, map_result totalCountOf r))"

definition PageInfo :: "(string \<Rightarrow> error + string) \<Rightarrow> store \<Rightarrow> resolver \<Rightarrow>
    resolver \<times> bool \<times> (error + PageInfo) result" where
  "PageInfo parse st c =
     (case compute parse st c of
        (c', executed, r) \<Rightarrow> (c', executed, map_result (pageInfoOf (limitOffset c')) r))"

definition Nodes :: "(string \<Rightarrow> string) \<Rightarrow> (string \<Rightarrow> error + string) \<Rightarrow> store \<Rightarrow> resolver \<Rightarrow>
    resolver \<times> bool \<times> (error + node list) result" where
  "Nodes TypeToKind parse st c =
     (case compute parse st c of (c', executed, r) \<Rightarrow> (c', executed, map_result (nodesOf TypeToKind) r))"

text \<open>
  A GraphQL query calls the three methods any number of times in any order, each call
  finding the store in some state of its own.
\<close>

datatype resolverMethod = CallTotalCount | CallPageInfo | CallNodes

datatype answer =
    Count "int \<times> error option"
  | Info "error + PageInfo"
  | NodeList "error + node list"

definition answerOf :: "(string \<Rightarrow> string) \<Rightarrow> LimitOffset \<Rightarrow> resolverMethod \<Rightarrow> computed \<Rightarrow> answer" where
  "answerOf TypeToKind lo m t =
     (case m of
        CallTotalCount \<Rightarrow> Count (totalCountOf t)
      | CallPageInfo \<Rightarrow> Info (pageInfoOf lo t)
      | CallNodes \<Rightarrow> NodeList (nodesOf TypeToKind t))"

definition invoke :: "(string \<Rightarrow> string) \<Rightarrow> (string \<Rightarrow> error + string) \<Rightarrow> resolverMethod \<Rightarrow> store \<Rightarrow> resolver \<Rightarrow>
    resolver \<times> bool \<times> answer result" where
  "invoke TypeToKind parse m st c =
     (case m of
        CallTotalCount \<Rightarrow>
          (case TotalCount parse st c of (c', executed, r) \<Rightarrow> (c', executed, map_result Count r))
      | CallPageInfo \<Rightarrow>
          (case PageInfo parse st c of (c', executed, r) \<Rightarrow> (c', executed, map_result Info r))
      | CallNodes \<Rightarrow>
          (case Nodes TypeToKind parse st c of (c', executed, r) \<Rightarrow> (c', executed, map_result NodeList r)))"

fun serve :: "(string \<Rightarrow> string) \<Rightarrow> (string \<Rightarrow> error + string) \<Rightarrow> (resolverMethod \<times> store) list \<Rightarrow> resolver \<Rightarrow>
    (bool \<times> answer result) list" where
  "serve TypeToKind parse [] c = []"
| "serve TypeToKind parse ((m, st) # calls) c =
     (case invoke TypeToKind parse m st c of
        (c', executed, a) \<Rightarrow> (executed, a) # serve TypeToKind parse calls c')"

subsection \<open>Concrete inputs\<close>

text \<open>
  Two code hosts, a repository on the first, and a store that lists given rows without error.
  \<open>schemeOf\<close> stands for \<open>url.Parse\<close> on the URLs used below: the scheme is the text before
  the first colon.
\<close>

definition hostA :: CodeHost where
  "hostA = \<lparr>ch_ExternalServiceID = ''https://github.com/'', ch_ExternalServiceType = ''github''\<rparr>"

definition hostB :: CodeHost where
  "hostB = \<lparr>ch_ExternalServiceID = ''https://gitlab.com/'', ch_ExternalServiceType = ''gitlab''\<rparr>"

definition repoA :: Repo where
  "repoA = \<lparr>repo_ServiceID = ''https://github.com/'',
            repo_CloneURLs = [''https://github.com/gorilla/mux'']\<rparr>"

definition listing :: "CodeHost list \<Rightarrow> Repo list \<Rightarrow> store" where
  "listing hosts rs =
     \<lparr>ListCodeHosts = (hosts, None),
      UserCredentialsList = (\<lambda>uid. Inr []),
      ReposList = (\<lambda>ids. Inr rs)\<rparr>"

definition schemeOf :: "string \<Rightarrow> error + string" where
  "schemeOf u = Inr (takeWhile (\<lambda>ch. ch \<noteq> CHR '':'') u)"

definition nodeOf :: "CodeHost \<Rightarrow> node" where
  "nodeOf ch = \<lparr>externalServiceKind = ch_ExternalServiceType ch,
               externalServiceURL = ch_ExternalServiceID ch, credential = None\<rparr>"

section \<open>The stress benchmark of the proxy (package xlang\_test)\<close>

subsection \<open>Character positions of a file\<close>

text \<open>
  A Go string is a sequence of bytes: a \<open>string\<close> here, whose characters are bytes.
  \<open>DecodeRune\<close> is the decoding step of a \<open>range\<close> loop over a string
  (\<open>utf8.DecodeRuneInString\<close>): the code point at the head of the bytes and its width.
  Invalid or truncated UTF-8 gives \<open>RuneError\<close> with width 1.
\<close>

definition RuneError :: nat where
  "RuneError = 0xFFFD"

fun DecodeRune :: "string \<Rightarrow> nat \<times> nat" where
  "DecodeRune [] = (RuneError, 0)"
| "DecodeRune (c0 # rest) =
     (let b0 = (of_char c0 :: nat) in
      if b0 < 0x80 then (b0, 1)
      else if b0 < 0xC2 \<or> 0xF4 < b0 then (RuneError, 1)
      else
        let lo = (if b0 = 0xE0 then 0xA0 else if b0 = 0xF0 then 0x90 else 0x80);
            hi = (if b0 = 0xED then 0x9F else if b0 = 0xF4 then 0x8F else 0xBF);
            sz = (if b0 < 0xE0 then 2 else if b0 < 0xF0 then 3 else (4::nat))
        in
        (case rest of
           [] \<Rightarrow> (RuneError, 1)
         | c1 # rest1 \<Rightarrow>
             let b1 = (of_char c1 :: nat) in
             if b1 < lo \<or> hi < b1 then (RuneError, 1)
             else if sz = 2 then ((b0 mod 32) * 64 + b1 mod 64, 2)
             else
               (case rest1 of
                  [] \<Rightarrow> (RuneError, 1)
                | c2 # rest2 \<Rightarrow>
                    let b2 = (of_char c2 :: nat) in
                    if b2 < 0x80 \<or> 0xBF < b2 then (RuneError, 1)
                    else if sz = 3 then ((b0 mod 16) * 4096 + (b1 mod 64) * 64 + b2 mod 64, 3)
                    else
                      (case rest2 of
                         [] \<Rightarrow> (RuneError, 1)
                       | c3 # rest3 \<Rightarrow>
                           let b3 = (of_char c3 :: nat) in
                           if b3 < 0x80 \<or> 0xBF < b3 then (RuneError, 1)
                           else ((b0 mod 8) * 262144 + (b1 mod 64) * 4096 +
                                 (b2 mod 64) * 64 + b3 mod 64, 4)))))"

text \<open>
  \<open>for i, r := range s\<close>: the pairs of the byte index at which a code point starts and the
  code point, in order.  The index advances by the width of the code point.
\<close>

function rangeString :: "nat \<Rightarrow> string \<Rightarrow> (nat \<times> nat) list" where
  "rangeString i s =
     (if s = [] then []
      else (i, fst (DecodeRune s)) # rangeString (i + snd (DecodeRune s)) (drop (snd (DecodeRune s)) s))"
  by pat_completeness auto
termination
  by (relation "measure (\<lambda>(i, s). length s)")
     (auto simp: Let_def neq_Nil_conv split: list.splits)

declare rangeString.simps [simp del]

text \<open>
  Lines 117--131: the loop body appends the current (line, character) and then moves on;
  the loop stops at the first code point whose byte index reaches \<open>maxPos\<close>.  Line and
  character grow by one per iteration from 0, far from the bounds of \<open>int\<close>.
\<close>

fun charPosLoop :: "nat \<Rightarrow> (nat \<times> nat) list \<Rightarrow> int \<Rightarrow> int \<Rightarrow> (int \<times> int) list" where
  "charPosLoop maxPos [] line character = []"
| "charPosLoop maxPos ((i, r) # rest) line character =
     (if i \<ge> maxPos then []
      else (line, character) #
           (if r = 10 then charPosLoop maxPos rest (line + 1) 0
            else charPosLoop maxPos rest line (character + 1)))"

definition fileCharPos :: "string \<Rightarrow> (int \<times> int) list" where
  "fileCharPos contentsBytes = charPosLoop 10 (rangeString 0 contentsBytes) 0 0"

text \<open>
  Lines 104--132: the positions of the first ten files in the order of the sorted file
  names.  The argument is the files read from the repository, sorted by name.
\<close>

definition allFileCharPos :: "(string \<times> string) list \<Rightarrow> (string \<times> (int \<times> int) list) list" where
  "allFileCharPos files = map (\<lambda>(path, contentsBytes). (path, fileCharPos contentsBytes)) (take 10 files)"

subsection \<open>Errors that are logged\<close>

text \<open>\<open>strings.HasPrefix\<close> and \<open>strings.Contains\<close>.\<close>

fun HasPrefix :: "string \<Rightarrow> string \<Rightarrow> bool" where
  "HasPrefix s [] = True"
| "HasPrefix [] (p # ps) = False"
| "HasPrefix (c # cs) (p # ps) = (c = p \<and> HasPrefix cs ps)"

fun Contains :: "string \<Rightarrow> string \<Rightarrow> bool" where
  "Contains [] substr = (substr = [])"
| "Contains (c # cs) substr = (HasPrefix (c # cs) substr \<or> Contains cs substr)"

text \<open>
  Lines 160--164, what one goroutine of the benchmark does with the result of
  \<open>doStressTestOpForPosition\<close>: the lines it logs with \<open>b.Logf("%s:%d:%d: %s", ...)\<close>.
\<close>

definition logf :: "string \<Rightarrow> int \<Rightarrow> int \<Rightarrow> error \<Rightarrow> string" where
  "logf path line character err = path @ '':'' @ Itoa line @ '':'' @ Itoa character @ '': '' @ err"

definition logged :: "string \<Rightarrow> int \<Rightarrow> int \<Rightarrow> error option \<Rightarrow> string list" where
  "logged path line character res =
     (case res of
        None \<Rightarrow> []
      | Some err \<Rightarrow>
          if \<not> Contains err ''invalid location:'' then [logf path line character err] else [])"

subsection \<open>\<open>doStressTestOpForPosition\<close>\<close>

record TextDocumentPositionParams =
  tdp_URI :: string
  tdp_Line :: int
  tdp_Character :: int

definition methods :: "string list" where
  "methods = [''textDocument/definition'', ''textDocument/hover'', ''textDocument/references'']"

text \<open>
  \<open>parallel.Run\<close> (github.com/neelance/parallel): a limiter with \<open>maxPar\<close> slots and the first
  error reported.  \<open>Acquire\<close> takes a slot and blocks while none is free; \<open>Release\<close> frees
  a slot and blocks while none is taken; \<open>Error\<close> keeps the first error it is given;
  \<open>Wait\<close> returns the stored error once every slot is free and blocks until then.  A call
  that blocks is \<open>None\<close>.
\<close>

record Run =
  par_slots :: nat
  par_held :: nat
  par_err :: "error option"

definition NewRun :: "nat \<Rightarrow> Run" where
  "NewRun maxPar = \<lparr>par_slots = maxPar, par_held = 0, par_err = None\<rparr>"

definition Acquire :: "Run \<Rightarrow> Run option" where
  "Acquire r = (if par_held r < par_slots r then Some (r\<lparr>par_held := par_held r + 1\<rparr>) else None)"

definition Release :: "Run \<Rightarrow> Run option" where
  "Release r = (if 0 < par_held r then Some (r\<lparr>par_held := par_held r - 1\<rparr>) else None)"

definition Error :: "error \<Rightarrow> Run \<Rightarrow> Run" where
  "Error err r = (case par_err r of None \<Rightarrow> r\<lparr>par_err := Some err\<rparr> | Some _ \<Rightarrow> r)"

definition Wait :: "Run \<Rightarrow> error option option" where
  "Wait r = (if par_held r = 0 then Some (par_err r) else None)"

text \<open>
  Lines 187--198 run in four threads: the function itself and one goroutine for each
  method.  The state of a run holds the index of the next method of the loop at line 189,
  the \<open>parallel.Run\<close>, the goroutines started so far with the method each was given, the
  requests sent on the connection so far, and the value the function returned, if it has.

  A goroutine (lines 191--196) is \<open>Ready\<close> when started, \<open>Calling\<close> when its request is
  sent, \<open>Finishing\<close> when the reply has arrived and a failure has been given to
  \<open>par.Error\<close>, and \<open>Done\<close> when the deferred \<open>par.Release()\<close> has run.
\<close>

datatype gstate = Ready | Calling | Finishing | Done

datatype thread = Main | Goroutine nat

record state =
  st_next :: nat
  st_par :: Run
  st_goroutines :: "(string \<times> gstate) list"
  st_sent :: "(string \<times> TextDocumentPositionParams) list"
  st_returned :: "error option option"

definition start :: state where
  "start = \<lparr>st_next = 0, st_par = NewRun (length methods), st_goroutines = [], st_sent = [],
            st_returned = None\<rparr>"

text \<open>
  One step of one thread, \<open>None\<close> when the thread is blocked or has ended.  \<open>call\<close> is the
  reply of the connection to a request, \<open>None\<close> for success.

  The function: while methods remain, \<open>par.Acquire()\<close> and \<open>go func(method)\<close> (lines
  189--191); then \<open>par.Wait()\<close> and return (line 198).
  Goroutine \<open>i\<close>: send the request (line 193); take the reply and report a failure as
  \<open>fmt.Errorf("%s: %s", method, err)\<close> (lines 193--195); release the slot (line 192).
\<close>

definition step :: "(string \<Rightarrow> TextDocumentPositionParams \<Rightarrow> error option) \<Rightarrow>
    TextDocumentPositionParams \<Rightarrow> thread \<Rightarrow> state \<Rightarrow> state option" where
  "step call params t s =
     (case t of
        Main \<Rightarrow>
          if st_returned s \<noteq> None then None
          else if st_next s < length methods then
            (case Acquire (st_par s) of
               None \<Rightarrow> None
             | Some r \<Rightarrow>
                 Some (s\<lparr>st_next := st_next s + 1, st_par := r,
                         st_goroutines := st_goroutines s @ [(methods ! st_next s, Ready)]\<rparr>))
          else
            (case Wait (st_par s) of
               None \<Rightarrow> None
             | Some res \<Rightarrow> Some (s\<lparr>st_returned := Some res\<rparr>))
      | Goroutine i \<Rightarrow>
          if i \<ge> length (st_goroutines s) then None
          else
            (case st_goroutines s ! i of
               (m, Ready) \<Rightarrow>
                 Some (s\<lparr>st_goroutines := (st_goroutines s)[i := (m, Calling)],
                         st_sent := st_sent s @ [(m, params)]\<rparr>)
             | (m, Calling) \<Rightarrow>
                 Some (s\<lparr>st_goroutines := (st_goroutines s)[i := (m, Finishing)],
                         st_par := (case call m params of
                                      Some err \<Rightarrow> Error (m @ '': '' @ err) (st_par s)
                                    | None \<Rightarrow> st_par s)\<rparr>)
             | (m, Finishing) \<Rightarrow>
                 (case Release (st_par s) of
                    None \<Rightarrow> None
                  | Some r \<Rightarrow>
                      Some (s\<lparr>st_goroutines := (st_goroutines s)[i := (m, Done)], st_par := r\<rparr>))
             | (m, Done) \<Rightarrow> None))"

text \<open>
  A schedule is the sequence of threads the scheduler turns to.  A thread that is blocked
  or has ended when its turn comes does nothing.
\<close>

fun run :: "(string \<Rightarrow> TextDocumentPositionParams \<Rightarrow> error option) \<Rightarrow>
    TextDocumentPositionParams \<Rightarrow> thread list \<Rightarrow> state \<Rightarrow> state" where
  "run call params [] s = s"
| "run call params (t # ts) s =
     run call params ts (case step call params t s of None \<Rightarrow> s | Some s' \<Rightarrow> s')"

text \<open>
  The scheduler is fair: after any interleaving \<open>sched\<close>, every thread keeps getting its
  turn.  \<open>turns\<close> gives each thread a turn so many times that no thread has a step left
  (lemma \<open>turns_return\<close>); any complete run is \<open>sched\<close> for some \<open>sched\<close>, and the turns
  after it change nothing.
\<close>

definition threads :: "thread list" where
  "threads = Main # map Goroutine [0..<length methods]"

definition turns :: "thread list" where
  "turns = concat (replicate (4 * length methods + 1) threads)"

text \<open>
  The function returns the requests it sent, in the order they were sent, and the result of
  \<open>par.Wait()\<close>: \<open>None\<close> if the function never returns, \<open>Some None\<close> for \<open>nil\<close>.
  \<open>docURI root path\<close> is \<open>root.WithFilePath(path).String()\<close>.
\<close>

definition positionParams :: "('r \<Rightarrow> string \<Rightarrow> string) \<Rightarrow> 'r \<Rightarrow> string \<Rightarrow> int \<Rightarrow> int \<Rightarrow>
    TextDocumentPositionParams" where
  "positionParams docURI root path line character =
     \<lparr>tdp_URI = docURI root path, tdp_Line = line, tdp_Character = character\<rparr>"

definition doStressTestOpForPosition :: "(string \<Rightarrow> TextDocumentPositionParams \<Rightarrow> error option) \<Rightarrow>
    thread list \<Rightarrow> ('r \<Rightarrow> string \<Rightarrow> string) \<Rightarrow> 'r \<Rightarrow> string \<Rightarrow> int \<Rightarrow> int \<Rightarrow>
    (string \<times> TextDocumentPositionParams) list \<times> error option option" where
  "doStressTestOpForPosition call sched docURI root path line character =
     (let params = positionParams docURI root path line character;
          s = run call params (sched @ turns) start
      in (st_sent s, st_returned s))"

text \<open>
  What holds in every state a run reaches.  The goroutines started are those of the first
  methods of the loop; the slots held are those of the goroutines that have not released
  theirs; the requests sent are those of the goroutines past \<open>Ready\<close>; the stored error
  is that of a goroutine past \<open>Calling\<close>; and the function has returned only if every
  method has its goroutine and every goroutine is \<open>Done\<close>.  \<open>map_of\<close> gives the state of
  the goroutine of a method.
\<close>

definition holding :: "string \<times> gstate \<Rightarrow> nat" where
  "holding g = (if snd g = Done then 0 else 1)"

definition replied :: "gstate \<Rightarrow> bool" where
  "replied a = (a = Finishing \<or> a = Done)"

definition inv :: "(string \<Rightarrow> TextDocumentPositionParams \<Rightarrow> error option) \<Rightarrow>
    TextDocumentPositionParams \<Rightarrow> state \<Rightarrow> bool" where
  "inv call params s =
     (st_next s \<le> length methods \<and>
      map fst (st_goroutines s) = take (st_next s) methods \<and>
      par_slots (st_par s) = length methods \<and>
      par_held (st_par s) = sum_list (map holding (st_goroutines s)) \<and>
      map snd (st_sent s) = replicate (length (st_sent s)) params \<and>
      distinct (map fst (st_sent s)) \<and>
      (\<forall>m. m \<in> set (map fst (st_sent s)) \<longleftrightarrow>
           (\<exists>a. map_of (st_goroutines s) m = Some a \<and> a \<noteq> Ready)) \<and>
      (par_err (st_par s) = None \<longrightarrow>
         (\<forall>m a. map_of (st_goroutines s) m = Some a \<and> replied a \<longrightarrow> call m params = None)) \<and>
      (\<forall>e. par_err (st_par s) = Some e \<longrightarrow>
         (\<exists>m a err. map_of (st_goroutines s) m = Some a \<and> replied a \<and>
            call m params = Some err \<and> e = m @ '': '' @ err)) \<and>
      (\<forall>res. st_returned s = Some res \<longrightarrow>
         st_next s = length methods \<and>
         (\<forall>m a. map_of (st_goroutines s) m = Some a \<longrightarrow> a = Done) \<and>
         res = par_err (st_par s)))"

text \<open>The steps that remain before the function has returned and every goroutine has ended.\<close>

definition remaining :: "string \<times> gstate \<Rightarrow> nat" where
  "remaining g = (case snd g of Ready \<Rightarrow> 3 | Calling \<Rightarrow> 2 | Finishing \<Rightarrow> 1 | Done \<Rightarrow> 0)"

definition work :: "state \<Rightarrow> nat" where
  "work s = 4 * (length methods - st_next s) + sum_list (map remaining (st_goroutines s)) +
            (if st_returned s = None then 1 else 0)"

subsection \<open>One iteration of the benchmark\<close>

text \<open>
  Lines 145--168.  The iteration dials a new connection and sends \<open>initialize\<close> on it; if
  that fails, \<open>b.Fatal\<close> ends the benchmark.  Otherwise one goroutine per position calls
  \<open>doStressTestOpForPosition\<close>, each under a schedule of its own.  The requests of these
  goroutines reach the connection in some interleaving, \<open>interleave\<close>, of the requests of each.  \<open>wg.Wait()\<close> returns when
  every goroutine has returned; the log lines are listed in the order of the positions.
\<close>

datatype params =
    ClientProxyInitializeParams string string
  | PositionParams TextDocumentPositionParams

datatype outcome = Fatal error | Completed | Waiting

definition jobs :: "(string \<times> (int \<times> int) list) list \<Rightarrow> (string \<times> int \<times> int) list" where
  "jobs pos = concat (map (\<lambda>(path, ps). map (\<lambda>(line, character). (path, line, character)) ps) pos)"

definition iteration :: "error option \<Rightarrow> (string \<Rightarrow> TextDocumentPositionParams \<Rightarrow> error option) \<Rightarrow>
    (string \<Rightarrow> int \<Rightarrow> int \<Rightarrow> thread list) \<Rightarrow> ((string \<times> params) list \<Rightarrow> (string \<times> params) list) \<Rightarrow>
    ('r \<Rightarrow> string) \<Rightarrow> ('r \<Rightarrow> string \<Rightarrow> string) \<Rightarrow> 'r \<Rightarrow> string \<Rightarrow>
    (string \<times> (int \<times> int) list) list \<Rightarrow> (string \<times> params) list \<times> string list \<times> outcome" where
  "iteration initReply call sched interleave rootString docURI root mode pos =
     (let init = (''initialize'', ClientProxyInitializeParams (rootString root) mode) in
      case initReply of
        Some err \<Rightarrow> ([init], [], Fatal err)
      | None \<Rightarrow>
          let runs = map (\<lambda>(path, line, character).
                       (path, line, character,
                        doStressTestOpForPosition call (sched path line character) docURI root
                          path line character)) (jobs pos)
          in (init # interleave (concat (map (\<lambda>(path, line, character, sent, res).
                        map (\<lambda>(m, p). (m, PositionParams p)) sent) runs)),
              concat (map (\<lambda>(path, line, character, sent, res).
                        (case res of None \<Rightarrow> [] | Some r \<Rightarrow> logged path line character r)) runs),
              if list_all (\<lambda>(path, line, character, sent, res). res \<noteq> None) runs
              then Completed else Waiting))"

subsection \<open>The globals of package xlang around the benchmark\<close>

text \<open>
  The two package variables the benchmark assigns.  The type of the file-system constructor
  is a parameter.
\<close>

record 'f xlang =
  LogTrackedErrors :: bool
  NewRemoteRepoVFS :: 'f

text \<open>
  Modelled from the spec: the declaration of \<open>xlang.LogTrackedErrors\<close> is not among the
  source files.  The observability hook "default behavior logs them": the toggle is
  initially \<open>true\<close>.
\<close>

definition xlangInit :: "'f \<Rightarrow> 'f xlang" where
  "xlangInit vfs = \<lparr>LogTrackedErrors = True, NewRemoteRepoVFS = vfs\<rparr>"

text \<open>
  A deferred call runs when the function returns and when \<open>b.Fatal\<close> or \<open>b.Skip\<close> end its
  goroutine (\<open>runtime.Goexit\<close>), last deferred first.  The list holds the most recent
  deferred call at its head.
\<close>

fun runDeferred :: "('s \<Rightarrow> 's) list \<Rightarrow> 's \<Rightarrow> 's" where
  "runDeferred [] g = g"
| "runDeferred (d # ds) g = runDeferred ds (d g)"

datatype exit = Skipped | Failed | Returned_normally

text \<open>
  Lines 76--179.  Each test parses its root (a failure is fatal) and runs a sub-benchmark,
  which reads the globals and assigns none.  The second component lists the value of
  \<open>LogTrackedErrors\<close> that each sub-benchmark finds.  A test is given by whether its root
  parses.
\<close>

fun runTests :: "bool list \<Rightarrow> 'f xlang \<Rightarrow> 'f xlang \<times> bool list \<times> exit" where
  "runTests [] g = (g, [], Returned_normally)"
| "runTests (parses # tests) g =
     (if \<not> parses then (g, [], Failed)
      else case runTests tests g of (g', seen, ex) \<Rightarrow> (g', LogTrackedErrors g # seen, ex))"

text \<open>Lines 31--57 and the exit of the function.\<close>

definition BenchmarkStress :: "bool \<Rightarrow> 'f \<Rightarrow> bool list \<Rightarrow> 'f xlang \<Rightarrow> 'f xlang \<times> bool list \<times> exit" where
  "BenchmarkStress short githubVFS tests g =
     (if short then (g, [], Skipped)
      else
        let orig = LogTrackedErrors g;
            g1 = g\<lparr>LogTrackedErrors := False\<rparr>;
            deferred1 = [\<lambda>s. s\<lparr>LogTrackedErrors := orig\<rparr>];
            orig' = NewRemoteRepoVFS g1;
            g2 = g1\<lparr>NewRemoteRepoVFS := githubVFS\<rparr>;
            deferred2 = (\<lambda>s. s\<lparr>NewRemoteRepoVFS := orig'\<rparr>) # deferred1
        in case runTests tests g2 of
             (g3, seen, ex) \<Rightarrow> (runDeferred deferred2 g3, seen, ex))"

subsection \<open>Concrete inputs\<close>

text \<open>
  A connection on which every hover request fails with an invalid location and the other
  requests succeed, a stand-in for \<open>root.WithFilePath(path).String()\<close>, and an interleaving
  in which the function starts two goroutines, the second sends its request, the third is
  started and sends its request, the second takes its reply, the first sends its request,
  and the function reaches \<open>par.Wait()\<close> with no goroutine ended.
\<close>

definition hoverFails :: "string \<Rightarrow> TextDocumentPositionParams \<Rightarrow> error option" where
  "hoverFails m p = (if m = ''textDocument/hover'' then Some ''invalid location: mux.go:0:0'' else None)"

definition filePath :: "string \<Rightarrow> string \<Rightarrow> string" where
  "filePath root path = root @ ''#'' @ path"

definition busySchedule :: "thread list" where
  "busySchedule = [Main, Main, Goroutine 1, Main, Goroutine 2, Goroutine 1, Goroutine 0, Main]"

section \<open>The session registry and the idle reaper of the proxy\<close>

text \<open>
  Modelled from the spec: \<open>xlang.NewProxy\<close>, the handling of \<open>initialize\<close> and
  \<open>Proxy.ShutDownIdleServers\<close>, which the benchmark calls at lines 135, 146 and 174, are not
  among the source files.  The definitions follow the data model (section 3), the Session
  Registry (4.2) and the Idle Reaper (4.4) of the specification.  Time is a natural number;
  \<open>now - lastActivityAt\<close> is 0 when the last activity is not in the past.
\<close>

record WorkspaceRoot =
  root_scheme :: string
  root_host :: string
  root_path :: string
  root_revision :: string

type_synonym SessionKey = "string \<times> WorkspaceRoot"

record Session =
  session_key :: SessionKey
  createdAt :: nat
  lastActivityAt :: nat
  inFlightCount :: nat
  cache :: "string \<rightharpoonup> string"

type_synonym Registry = "SessionKey \<rightharpoonup> Session"

text \<open>
  Modelled from the spec: a Session is created on the first request for an unseen key; its
  filesystem is populated lazily, so the cache of a new Session is empty.
\<close>

definition newSession :: "SessionKey \<Rightarrow> nat \<Rightarrow> Session" where
  "newSession key now =
     \<lparr>session_key = key, createdAt = now, lastActivityAt = now, inFlightCount = 0,
      cache = Map.empty\<rparr>"

text \<open>
  Modelled from the spec: \<open>getOrCreate\<close> returns the existing Session for the key if live;
  otherwise it constructs a new Session and publishes it.  The third component tells whether
  a Session was spawned.  The handshake binds the connection to the Session that
  \<open>getOrCreate\<close> returns.
\<close>

definition getOrCreate :: "Registry \<Rightarrow> SessionKey \<Rightarrow> nat \<Rightarrow> Registry \<times> Session \<times> bool" where
  "getOrCreate reg key now =
     (case reg key of
        Some s \<Rightarrow> (reg, s, False)
      | None \<Rightarrow> (reg(key \<mapsto> newSession key now), newSession key now, True))"

definition handshake :: "Registry \<Rightarrow> string \<Rightarrow> WorkspaceRoot \<Rightarrow> nat \<Rightarrow> Registry \<times> Session \<times> bool" where
  "handshake reg mode root now = getOrCreate reg (mode, root) now"

text \<open>Modelled from the spec: \<open>remove(key)\<close> detaches the Session; no-op if already removed.\<close>

definition remove :: "Registry \<Rightarrow> SessionKey \<Rightarrow> Registry" where
  "remove reg key = reg(key := None)"

text \<open>
  Modelled from the spec: \<open>listIdleOlderThan(duration)\<close> is the Sessions whose
  (now - lastActivityAt) exceeds the duration and whose inFlightCount is zero; given here
  as the test whether the Session of a key is among them.
\<close>

definition listIdleOlderThan :: "Registry \<Rightarrow> nat \<Rightarrow> nat \<Rightarrow> SessionKey \<Rightarrow> bool" where
  "listIdleOlderThan reg olderThan now key =
     (case reg key of
        None \<Rightarrow> False
      | Some s \<Rightarrow> now - lastActivityAt s > olderThan \<and> inFlightCount s = 0)"

text \<open>
  Modelled from the spec: \<open>reap(olderThan)\<close> computes \<open>listIdleOlderThan(olderThan)\<close> and
  removes each of them from the registry; the removed Session, with its cache, is discarded.
  \<open>ShutDownIdleServers(ctx, 0)\<close> is \<open>reap reg 0\<close>.
\<close>

definition reap :: "Registry \<Rightarrow> nat \<Rightarrow> nat \<Rightarrow> Registry" where
  "reap reg olderThan now =
     (\<lambda>key. if listIdleOlderThan reg olderThan now key then remove reg key key else reg key)"

subsection \<open>Concrete inputs\<close>

text \<open>
  The workspace of the first test of the benchmark, a Session on it that has a request in
  flight and a file cached, one that is idle, and one whose last activity is at time 9.
\<close>

definition muxRoot :: WorkspaceRoot where
  "muxRoot = \<lparr>root_scheme = ''git'', root_host = ''github.com'', root_path = ''/gorilla/mux'',
              root_revision = ''0a192a193177452756c362c20087ddafcf6829c4''\<rparr>"

definition busySession :: Session where
  "busySession = \<lparr>session_key = (''go'', muxRoot), createdAt = 1, lastActivityAt = 5,
                  inFlightCount = 1, cache = [''mux.go'' \<mapsto> ''package mux'']\<rparr>"

definition idleSession :: Session where
  "idleSession = \<lparr>session_key = (''go'', muxRoot), createdAt = 1, lastActivityAt = 5,
                  inFlightCount = 0, cache = [''mux.go'' \<mapsto> ''package mux'']\<rparr>"

definition justUsedSession :: Session where
  "justUsedSession = \<lparr>session_key = (''go'', muxRoot), createdAt = 1, lastActivityAt = 9,
                      inFlightCount = 0, cache = [''mux.go'' \<mapsto> ''package mux'']\<rparr>"

section \<open>Properties of the code-host connection resolver\<close>

subsection \<open>The repo slices built when only hosts without credential are asked for\<close>

lemma groupRepos_first_nil_aux:
  "(\<And>k xs. m k = Some xs \<Longrightarrow> xs \<noteq> [] \<and> hd xs = None) \<Longrightarrow>
   groupRepos rs m k = Some xs \<Longrightarrow> xs \<noteq> [] \<and> hd xs = None"
proof (induction rs arbitrary: m)
  case Nil
  then show ?case by simp
next
  case (Cons r rs)
  let ?k = "repo_ServiceID r"
  let ?m1 = "(case m ?k of None \<Rightarrow> m(?k \<mapsto> [None]) | Some _ \<Rightarrow> m)"
  let ?m2 = "?m1(?k \<mapsto> slice_at ?m1 ?k @ [Some r])"
  have inv: "\<And>k xs. ?m2 k = Some xs \<Longrightarrow> xs \<noteq> [] \<and> hd xs = None"
    using Cons.prems(1) by (fastforce simp: slice_at_def split: option.splits if_splits)
  from Cons.prems(2) have "groupRepos rs ?m2 k = Some xs" by (simp add: Let_def)
  from Cons.IH[OF inv this] show ?case .
qed

lemma groupRepos_first_nil:
  "groupRepos rs Map.empty k = Some xs \<Longrightarrow> \<exists>ys. xs = None # ys"
  using groupRepos_first_nil_aux[of Map.empty rs k xs] by (cases xs) auto

lemma scanRepos_nil_first: "scanRepos parse (None # ys) b = Panic" by simp

lemma filterHosts_never_ok:
  "filterHosts parse (groupRepos rs Map.empty) creds (ch # rest) acc \<noteq> Ok hosts"
proof (cases "groupRepos rs Map.empty (ch_ExternalServiceID ch)")
  case None then show ?thesis by simp
next
  case (Some xs)
  then obtain ys where "xs = None # ys" using groupRepos_first_nil by blast
  with Some show ?thesis by simp
qed

text \<open>
  C10 says that every repo slice stored in \<open>reposByServiceIDs\<close> holds a non-nil pointer at
  every index, so that the loop calling \<open>CloneURLs\<close> never dereferences \<open>nil\<close>.  The code
  does the opposite: line 120 creates each slice with \<open>make([]*types.Repo, 1)\<close>, so index 0
  is \<open>nil\<close> in every slice (lemma \<open>groupRepos_first_nil\<close>), and no run over a non-empty
  list of code hosts completes the filter (lemma \<open>filterHosts_never_ok\<close>).  At one
  repository on one code host the slice is \<open>[nil, repo]\<close> and \<open>compute\<close> panics.
\<close>

theorem compute_nil_repo_panics:
  "groupRepos [repoA] Map.empty ''https://github.com/'' = Some [None, Some repoA] \<and>
   snd (snd (compute schemeOf (listing [hostA] [repoA])
     (newResolver True [1] 1 \<lparr>Limit = 0, Offset = 0\<rparr>))) = Panicked"
  by (simp add: compute_def computeBody_def newResolver_def listing_def hostA_def repoA_def
      slice_at_def Let_def)

subsection \<open>\<open>compute\<close> runs its body once\<close>

lemma compute_once: "once c \<Longrightarrow> compute parse st c = (c, False, Returned (computedOf c))"
  by (simp add: compute_def)

lemma paginate_frame: "paginate c = Some c' \<Longrightarrow> limitOffset c' = limitOffset c \<and> once c' = once c"
  by (auto simp: paginate_def Let_def split: if_splits option.splits)

lemma computeBody_limitOffset: "limitOffset (fst (computeBody parse st c)) = limitOffset c"
  by (auto simp: computeBody_def Let_def split: sum.splits loop.splits option.splits dest!: paginate_frame)

lemma compute_limitOffset: "limitOffset (fst (compute parse st c)) = limitOffset c"
  using computeBody_limitOffset[of parse st c]
  by (auto simp: compute_def split: prod.splits bool.splits)

lemma compute_sets_once: "once (fst (compute parse st c))"
  by (auto simp: compute_def split: prod.splits bool.splits)


lemma invoke_compute:
  "invoke K parse m st c =
     (case compute parse st c of
        (c', e, r) \<Rightarrow> (c', e, map_result (answerOf K (limitOffset c) m) r))"
proof -
  obtain c' e r where cmp: "compute parse st c = (c', e, r)" by (cases "compute parse st c") auto
  have lo: "limitOffset c' = limitOffset c" using compute_limitOffset[of parse st c] cmp by simp
  show ?thesis
    by (cases m; cases r)
       (simp_all add: invoke_def TotalCount_def PageInfo_def Nodes_def answerOf_def cmp lo)
qed

lemma serve_once:
  "once c \<Longrightarrow> serve K parse calls c =
     map (\<lambda>(m, st). (False, Returned (answerOf K (limitOffset c) m (computedOf c)))) calls"
  by (induction calls) (auto simp: invoke_compute compute_once)

text \<open>
  What holds of every resolver, every sequence of calls and every state of the store at
  each call: the body of \<open>compute\<close> runs at most once, and there is one tuple from which
  every call that returns computes its answer.  The call that runs the body may panic, and
  \<open>sync.Once\<close> still marks the body as done.
\<close>

lemma serve_runs_body_once:
  "length (filter fst (serve K parse calls c)) \<le> 1 \<and>
   (\<exists>t. \<forall>i < length calls.
        snd (serve K parse calls c ! i) = Returned (answerOf K (limitOffset c) (fst (calls ! i)) t) \<or>
        (i = 0 \<and> \<not> once c \<and> snd (serve K parse calls c ! i) = Panicked))"
proof (cases calls)
  case Nil
  then show ?thesis by simp
next
  case (Cons call rest)
  obtain m st where call: "call = (m, st)" by (cases call)
  obtain c' e r where cmp: "compute parse st c = (c', e, r)" by (cases "compute parse st c") auto
  have o: "once c'" using compute_sets_once[of parse st c] cmp by simp
  have lo: "limitOffset c' = limitOffset c" using compute_limitOffset[of parse st c] cmp by simp
  have out: "serve K parse calls c =
      (e, map_result (answerOf K (limitOffset c) m) r) #
      map (\<lambda>(m, st). (False, Returned (answerOf K (limitOffset c) m (computedOf c')))) rest"
    using serve_once[OF o, of K parse rest] by (simp add: Cons call invoke_compute cmp lo)
  have cnt: "length (filter fst (serve K parse calls c)) \<le> 1"
    unfolding out by (simp add: filter_map comp_def split_def)
  have r: "r = Panicked \<and> \<not> once c \<or> r = Returned (computedOf c')"
    using cmp by (auto simp: compute_def computedOf_def split: if_splits prod.splits bool.splits)
  have "\<forall>i < length calls.
        snd (serve K parse calls c ! i) =
          Returned (answerOf K (limitOffset c) (fst (calls ! i)) (computedOf c')) \<or>
        (i = 0 \<and> \<not> once c \<and> snd (serve K parse calls c ! i) = Panicked)"
  proof (intro allI impI)
    fix i assume i: "i < length calls"
    show "snd (serve K parse calls c ! i) =
          Returned (answerOf K (limitOffset c) (fst (calls ! i)) (computedOf c')) \<or>
        (i = 0 \<and> \<not> once c \<and> snd (serve K parse calls c ! i) = Panicked)"
    proof (cases i)
      case 0
      then show ?thesis using r unfolding out by (auto simp: Cons call)
    next
      case (Suc j)
      then have j: "j < length rest" using i Cons by simp
      then show ?thesis unfolding out by (simp add: Suc Cons split_def)
    qed
  qed
  with cnt show ?thesis by blast
qed

text \<open>
  C8 says that every call of the three methods observes the same results.  The body does run
  at most once (lemma \<open>serve_runs_body_once\<close>), but a panic in it breaks the rest: with the
  input of \<open>compute_nil_repo_panics\<close> the first call of \<open>TotalCount\<close> panics at the \<open>nil\<close>
  repo, after \<open>chs\<close> and \<open>credsByIDType\<close> were assigned and before \<open>chsErr\<close> or the page
  were; \<open>sync.Once\<close> counts the body as done, so the second call of \<open>TotalCount\<close> returns
  the count 1 of the unfiltered list without error, \<open>Nodes\<close> returns no node and \<open>PageInfo\<close>
  a next page.
\<close>

theorem compute_panics_then_returns_stale:
  "map snd (serve id schemeOf
      [(CallTotalCount, listing [hostA] [repoA]), (CallTotalCount, listing [hostA] [repoA]),
       (CallNodes, listing [hostA] [repoA]), (CallPageInfo, listing [hostA] [repoA])]
      (newResolver True [1] 1 \<lparr>Limit = 0, Offset = 0\<rparr>)) =
     [Panicked, Returned (Count (1, None)), Returned (NodeList (Inr [])),
      Returned (Info (Inr (NextPageCursor ''0'')))] \<and>
   map fst (serve id schemeOf
      [(CallTotalCount, listing [hostA] [repoA]), (CallTotalCount, listing [hostA] [repoA]),
       (CallNodes, listing [hostA] [repoA]), (CallPageInfo, listing [hostA] [repoA])]
      (newResolver True [1] 1 \<lparr>Limit = 0, Offset = 0\<rparr>)) =
     [True, False, False, False]"
  by (simp add: invoke_def Nodes_def TotalCount_def PageInfo_def nodesOf_def totalCountOf_def
      pageInfoOf_def compute_def computeBody_def newResolver_def listing_def hostA_def repoA_def
      slice_at_def Let_def wrap64_def wrap32_def computedOf_def Itoa_def utoa.simps digit_char_def)

subsection \<open>The next-page cursor and the page\<close>

lemma wrap64_id: "- (2 ^ 63) \<le> x \<Longrightarrow> x < 2 ^ 63 \<Longrightarrow> wrap64 x = x"
  by (simp add: wrap64_def)

lemma paginate_page:
  assumes p: "paginate c = Some c'"
    and l: "0 < Limit (limitOffset c)" and o: "0 \<le> Offset (limitOffset c)"
    and b: "Limit (limitOffset c) + Offset (limitOffset c) < 2 ^ 63"
    and e: "chsPage c = []"
  shows "chs c' = chs c \<and> chsErr c' = chsErr c \<and> credsByIDType c' = credsByIDType c \<and>
         chsPage c' = take (nat (Limit (limitOffset c))) (drop (nat (Offset (limitOffset c))) (chs c))"
proof -
  let ?L = "Limit (limitOffset c)" and ?O = "Offset (limitOffset c)" and ?n = "int (length (chs c))"
  have w: "wrap64 (?L + ?O) = ?L + ?O" using l o b by (intro wrap64_id) auto
  show ?thesis
  proof (cases "?O \<ge> ?n")
    case True
    then show ?thesis using p e o by (simp add: paginate_def Let_def)
  next
    case out: False
    show ?thesis
    proof (cases "?L + ?O \<ge> ?n")
      case True
      have w2: "wrap64 (?n - ?O) = ?n - ?O" using out o b True by (intro wrap64_id) auto
      have w3: "wrap64 ?n = ?n" using l o b True by (intro wrap64_id) auto
      have "chsPage c' = drop (nat ?O) (chs c) \<and> chs c' = chs c \<and> chsErr c' = chsErr c \<and>
            credsByIDType c' = credsByIDType c"
        using p out l o True w w2 w3
        by (auto simp: paginate_def Let_def slice_def split: if_splits option.splits)
      moreover have "take (nat ?L) (drop (nat ?O) (chs c)) = drop (nat ?O) (chs c)"
        using True l o by (intro take_all) auto
      ultimately show ?thesis by simp
    next
      case False
      then show ?thesis
        using p out l o w
        by (auto simp: paginate_def Let_def slice_def nat_add_distrib split: if_splits option.splits)
    qed
  qed
qed

lemma paginate_no_panic:
  assumes l: "0 < Limit (limitOffset c)" and o: "0 \<le> Offset (limitOffset c)"
    and b: "Limit (limitOffset c) + Offset (limitOffset c) < 2 ^ 63"
  shows "paginate c \<noteq> None"
proof -
  let ?L = "Limit (limitOffset c)" and ?O = "Offset (limitOffset c)" and ?n = "int (length (chs c))"
  have w: "wrap64 (?L + ?O) = ?L + ?O" using l o b by (intro wrap64_id) auto
  show ?thesis
  proof (cases "?L + ?O \<ge> ?n")
    case True
    have w2: "\<not> ?O \<ge> ?n \<Longrightarrow> wrap64 (?n - ?O) = ?n - ?O" using o b True by (intro wrap64_id) auto
    have w3: "wrap64 ?n = ?n" using l o b True by (intro wrap64_id) auto
    show ?thesis using l o True w w2 w3
      by (auto simp: paginate_def Let_def slice_def split: if_splits option.splits)
  next
    case False
    then show ?thesis using l o w
      by (auto simp: paginate_def Let_def slice_def split: if_splits option.splits)
  qed
qed

lemma computeBody_page:
  assumes cb: "computeBody parse st c = (c', False)" and ne: "chsErr c' = None"
    and l: "0 < Limit (limitOffset c)" and o: "0 \<le> Offset (limitOffset c)"
    and b: "Limit (limitOffset c) + Offset (limitOffset c) < 2 ^ 63"
    and e: "chsPage c = []"
  shows "chsPage c' = take (nat (Limit (limitOffset c))) (drop (nat (Offset (limitOffset c))) (chs c'))"
  using cb ne l o b e
  by (auto simp: computeBody_def Let_def split: if_splits sum.splits loop.splits option.splits
      dest!: paginate_page)






section \<open>Properties of the stress benchmark\<close>

subsection \<open>Positions count code points\<close>

lemma charPosLoop_steps:
  "length (charPosLoop m rs l c) \<le> length rs \<and>
   (charPosLoop m rs l c \<noteq> [] \<longrightarrow> charPosLoop m rs l c ! 0 = (l, c)) \<and>
   (\<forall>k. Suc k < length (charPosLoop m rs l c) \<longrightarrow>
        charPosLoop m rs l c ! Suc k =
          (if snd (rs ! k) = 10 then (fst (charPosLoop m rs l c ! k) + 1, 0)
           else (fst (charPosLoop m rs l c ! k), snd (charPosLoop m rs l c ! k) + 1)))"
proof (induction rs arbitrary: l c)
  case Nil
  then show ?case by simp
next
  case (Cons a rs)
  obtain i r where a: "a = (i, r)" by (cases a)
  show ?case
  proof (cases "i \<ge> m")
    case True
    then show ?thesis by (simp add: a)
  next
    case False
    let ?l' = "if r = 10 then l + 1 else l" and ?c' = "if r = 10 then 0 else c + 1"
    have eq: "charPosLoop m (a # rs) l c = (l, c) # charPosLoop m rs ?l' ?c'"
      using False by (simp add: a)
    note IH = Cons.IH[of ?l' ?c']
    have "\<forall>k. Suc k < length (charPosLoop m (a # rs) l c) \<longrightarrow>
        charPosLoop m (a # rs) l c ! Suc k =
          (if snd ((a # rs) ! k) = 10 then (fst (charPosLoop m (a # rs) l c ! k) + 1, 0)
           else (fst (charPosLoop m (a # rs) l c ! k), snd (charPosLoop m (a # rs) l c ! k) + 1))"
    proof (intro allI impI)
      fix k assume k: "Suc k < length (charPosLoop m (a # rs) l c)"
      show "charPosLoop m (a # rs) l c ! Suc k =
          (if snd ((a # rs) ! k) = 10 then (fst (charPosLoop m (a # rs) l c ! k) + 1, 0)
           else (fst (charPosLoop m (a # rs) l c ! k), snd (charPosLoop m (a # rs) l c ! k) + 1))"
      proof (cases k)
        case 0
        then have "charPosLoop m rs ?l' ?c' \<noteq> []" using k unfolding eq by auto
        with IH have "charPosLoop m rs ?l' ?c' ! 0 = (?l', ?c')" by blast
        then show ?thesis unfolding eq using 0 by (simp add: a)
      next
        case (Suc j)
        then have "Suc j < length (charPosLoop m rs ?l' ?c')" using k unfolding eq by simp
        with IH show ?thesis unfolding eq using Suc by simp
      qed
    qed
    moreover have "length (charPosLoop m (a # rs) l c) \<le> length (a # rs)"
      unfolding eq using IH by simp
    moreover have "charPosLoop m (a # rs) l c ! 0 = (l, c)" unfolding eq by simp
    ultimately show ?thesis by blast
  qed
qed

lemma charPosLoop_length:
  "length (charPosLoop m rs l c) = length (takeWhile (\<lambda>(i, r). i < m) rs)"
  by (induction rs arbitrary: l c) auto

lemma DecodeRune_width: "s \<noteq> [] \<Longrightarrow> 1 \<le> snd (DecodeRune s) \<and> snd (DecodeRune s) \<le> length s"
  by (cases s) (auto simp: Let_def split: list.splits)

lemma rangeString_decodes:
  "(i, r) \<in> set (rangeString j s) \<Longrightarrow>
   j \<le> i \<and> i < j + length s \<and> r = fst (DecodeRune (drop (i - j) s))"
proof (induction j s rule: rangeString.induct)
  case (1 j s)
  show ?case
  proof (cases "s = []")
    case True
    with "1.prems" show ?thesis by (simp add: rangeString.simps)
  next
    case False
    let ?w = "snd (DecodeRune s)"
    have w: "1 \<le> ?w" "?w \<le> length s" using DecodeRune_width[OF False] by auto
    from "1.prems" False
    consider "(i, r) = (j, fst (DecodeRune s))"
      | "(i, r) \<in> set (rangeString (j + ?w) (drop ?w s))"
      by (subst (asm) rangeString.simps) auto
    then show ?thesis
    proof cases
      case 1
      then show ?thesis using False by (cases s) auto
    next
      case 2
      from "1.IH"[OF False 2]
      have a: "j + ?w \<le> i" "i < j + ?w + length (drop ?w s)"
        and b: "r = fst (DecodeRune (drop (i - (j + ?w)) (drop ?w s)))" by auto
      have "i - (j + ?w) + ?w = i - j" using a by simp
      then have "drop (i - (j + ?w)) (drop ?w s) = drop (i - j) s" by simp
      with a b w show ?thesis by auto
    qed
  qed
qed

text \<open>
  C1: for every file content the positions are computed over the decoded text.  The list
  starts with line 0, character 0; after a code point other than the newline the next
  position has the same line and the character increased by exactly one, whatever the
  number of bytes of the code point; after a newline the next position is on the next line at
  character 0.  The code points are those a \<open>range\<close> loop decodes (each entry of
  \<open>rangeString\<close> is the decoding of the bytes at its index, lemma \<open>rangeString_decodes\<close>),
  and the list holds one position for each code point that starts before byte 10.
\<close>

theorem fileCharPos_counts_runes:
  "length (fileCharPos s) = length (takeWhile (\<lambda>(i, r). i < 10) (rangeString 0 s)) \<and>
   (fileCharPos s \<noteq> [] \<longrightarrow> fileCharPos s ! 0 = (0, 0)) \<and>
   (\<forall>k. Suc k < length (fileCharPos s) \<longrightarrow>
        fileCharPos s ! Suc k =
          (if snd (rangeString 0 s ! k) = 10 then (fst (fileCharPos s ! k) + 1, 0)
           else (fst (fileCharPos s ! k), snd (fileCharPos s ! k) + 1)))"
  using charPosLoop_steps[of 10 "rangeString 0 s" 0 0] charPosLoop_length[of 10 "rangeString 0 s" 0 0]
  unfolding fileCharPos_def by blast

theorem fileCharPos_counts_runes_witness:
  "rangeString 0 [CHR 0xC3, CHR 0xA9, CHR 0x0A, CHR ''x''] = [(0, 233), (2, 10), (3, 120)] \<and>
   fileCharPos [CHR 0xC3, CHR 0xA9, CHR 0x0A, CHR ''x''] = [(0, 0), (0, 1), (1, 0)] \<and>
   fileCharPos [CHR 0xC3, CHR 0xA9, CHR 0x0A, CHR ''x''] ! Suc 0 =
     (fst (fileCharPos [CHR 0xC3, CHR 0xA9, CHR 0x0A, CHR ''x''] ! 0),
      snd (fileCharPos [CHR 0xC3, CHR 0xA9, CHR 0x0A, CHR ''x''] ! 0) + 1)"
proof -
  let ?s = "[CHR 0xC3, CHR 0xA9, CHR 0x0A, CHR ''x'']"
  have r: "rangeString 0 ?s = [(0, 233), (2, 10), (3, 120)]"
    by (simp add: rangeString.simps Let_def)
  have p: "fileCharPos ?s = [(0, 0), (0, 1), (1, 0)]"
    by (simp add: fileCharPos_def r)
  have k: "Suc 0 < length (fileCharPos ?s)" and n: "snd (rangeString 0 ?s ! 0) \<noteq> 10"
    by (simp_all add: p r)
  from fileCharPos_counts_runes[of ?s] k n
  have "fileCharPos ?s ! Suc 0 = (fst (fileCharPos ?s ! 0), snd (fileCharPos ?s ! 0) + 1)"
    by presburger
  with r p show ?thesis by blast
qed

subsection \<open>Which errors are logged\<close>

lemma HasPrefix_iff: "HasPrefix s p \<longleftrightarrow> (\<exists>vs. s = p @ vs)"
  by (induction s p rule: HasPrefix.induct) auto

lemma Contains_iff: "Contains s sub \<longleftrightarrow> (\<exists>us vs. s = us @ sub @ vs)"
proof (induction s)
  case Nil
  then show ?case by auto
next
  case (Cons c cs)
  have "(\<exists>us vs. c # cs = us @ sub @ vs) \<longleftrightarrow>
        (\<exists>vs. c # cs = sub @ vs) \<or> (\<exists>us vs. cs = us @ sub @ vs)"
  proof
    assume "\<exists>us vs. c # cs = us @ sub @ vs"
    then obtain us vs where e: "c # cs = us @ sub @ vs" by blast
    show "(\<exists>vs. c # cs = sub @ vs) \<or> (\<exists>us vs. cs = us @ sub @ vs)"
    proof (cases us)
      case Nil
      with e show ?thesis by auto
    next
      case (Cons u us')
      with e have "cs = us' @ sub @ vs" by simp
      then show ?thesis by blast
    qed
  next
    assume "(\<exists>vs. c # cs = sub @ vs) \<or> (\<exists>us vs. cs = us @ sub @ vs)"
    then show "\<exists>us vs. c # cs = us @ sub @ vs"
    proof
      assume "\<exists>vs. c # cs = sub @ vs"
      then obtain vs where "c # cs = [] @ sub @ vs" by auto
      then show ?thesis by blast
    next
      assume "\<exists>us vs. cs = us @ sub @ vs"
      then obtain us vs where "c # cs = (c # us) @ sub @ vs" by auto
      then show ?thesis by blast
    qed
  qed
  with Cons show ?case by (simp add: HasPrefix_iff)
qed

text \<open>
  C2: an error returned by a position query is logged if and only if its message does not
  contain \<open>invalid location:\<close>; an error whose message contains it is dropped, and so is
  no other.  A query that succeeds logs nothing.
\<close>

theorem logged_iff_not_invalid_location:
  "logged path line character None = [] \<and>
   (logged path line character (Some err) = [logf path line character err] \<longleftrightarrow>
      \<not> (\<exists>us vs. err = us @ ''invalid location:'' @ vs)) \<and>
   (logged path line character (Some err) = [] \<longleftrightarrow>
      (\<exists>us vs. err = us @ ''invalid location:'' @ vs))"
  by (simp add: logged_def Contains_iff)

theorem logged_iff_not_invalid_location_witness:
  "logged ''mux.go'' 3 7 (Some ''textDocument/hover: invalid location: mux.go:3:7'') = [] \<and>
   logged ''mux.go'' 3 7 (Some ''textDocument/hover: connection is closed'') =
     [''mux.go:3:7: textDocument/hover: connection is closed'']"
proof -
  have "''textDocument/hover: invalid location: mux.go:3:7'' =
        ''textDocument/hover: '' @ ''invalid location:'' @ '' mux.go:3:7''" by simp
  then have "\<exists>us vs. ''textDocument/hover: invalid location: mux.go:3:7'' =
        us @ ''invalid location:'' @ vs" by blast
  with logged_iff_not_invalid_location[of "''mux.go''" 3 7 "''textDocument/hover: invalid location: mux.go:3:7''"]
  have a: "logged ''mux.go'' 3 7 (Some ''textDocument/hover: invalid location: mux.go:3:7'') = []"
    by blast
  have b: "logged ''mux.go'' 3 7 (Some ''textDocument/hover: connection is closed'') =
     [''mux.go:3:7: textDocument/hover: connection is closed'']"
    by (simp add: logged_def logf_def Itoa_def utoa.simps digit_char_def)
  from a b show ?thesis by blast
qed

subsection \<open>The three requests of a position\<close>

text \<open>
  Every step of every thread keeps \<open>inv\<close> and uses up \<open>work\<close>; a run that has not returned
  always has a thread that can step; so after any interleaving the turns of a fair
  scheduler bring the function to its return.
\<close>

lemma distinct_methods: "distinct methods" and length_methods: "length methods = 3"
  by (simp_all add: methods_def)

lemma inv_start: "inv call params start"
  by (simp add: inv_def start_def NewRun_def)

lemma work_start: "work start = 4 * length methods + 1"
  by (simp add: work_def start_def)

lemma update_fst:
  "i < length gs \<Longrightarrow> gs ! i = (m, a) \<Longrightarrow> map fst (gs[i := (m, b)]) = map fst gs"
  by (simp add: map_update list_update_same_conv)

lemma update_map_of:
  "distinct (map fst gs) \<Longrightarrow> i < length gs \<Longrightarrow> gs ! i = (m, a) \<Longrightarrow>
   map_of (gs[i := (m, b)]) = (map_of gs)(m \<mapsto> b)"
proof (induction gs arbitrary: i)
  case Nil
  then show ?case by simp
next
  case (Cons g gs)
  show ?case
  proof (cases i)
    case 0
    with Cons.prems show ?thesis by auto
  next
    case (Suc j)
    with Cons.prems have j: "j < length gs" "gs ! j = (m, a)" and d: "distinct (map fst gs)"
      and n: "fst g \<notin> fst ` set gs" by auto
    from j have "(m, a) \<in> set gs" using nth_mem[of j gs] by simp
    then have "m \<in> fst ` set gs" by (rule image_eqI[rotated]) simp
    with n have ne: "fst g \<noteq> m" by auto
    from Cons.IH[OF d j] Suc ne show ?thesis by (cases g) (auto simp: fun_upd_twist)
  qed
qed

lemma update_sum:
  "i < length gs \<Longrightarrow> sum_list (map f (gs[i := y])) + f (gs ! i) = sum_list (map f gs) + (f y :: nat)"
proof (induction gs arbitrary: i)
  case Nil
  then show ?case by simp
next
  case (Cons g gs)
  then show ?case by (cases i) auto
qed

lemma all_done:
  "sum_list (map holding gs) = 0 \<Longrightarrow> g \<in> set gs \<Longrightarrow> snd g = Done"
  by (induction gs) (auto simp: holding_def split: if_splits)

lemma held_positive:
  "g \<in> set gs \<Longrightarrow> snd g \<noteq> Done \<Longrightarrow> 0 < sum_list (map holding gs)"
  by (induction gs) (auto simp: holding_def)

lemma held_bound: "sum_list (map holding gs) \<le> length gs"
  by (induction gs) (auto simp: holding_def)

lemma invD:
  assumes "inv call params s"
  shows "st_next s \<le> length methods"
    and "map fst (st_goroutines s) = take (st_next s) methods"
    and "par_slots (st_par s) = length methods"
    and "par_held (st_par s) = sum_list (map holding (st_goroutines s))"
    and "map snd (st_sent s) = replicate (length (st_sent s)) params"
    and "distinct (map fst (st_sent s))"
    and "\<And>m. m \<in> set (map fst (st_sent s)) \<longleftrightarrow>
           (\<exists>a. map_of (st_goroutines s) m = Some a \<and> a \<noteq> Ready)"
    and "\<And>m a. par_err (st_par s) = None \<Longrightarrow> map_of (st_goroutines s) m = Some a \<Longrightarrow>
           replied a \<Longrightarrow> call m params = None"
    and "\<And>e. par_err (st_par s) = Some e \<Longrightarrow>
         \<exists>m a err. map_of (st_goroutines s) m = Some a \<and> replied a \<and>
            call m params = Some err \<and> e = m @ '': '' @ err"
    and "\<And>res. st_returned s = Some res \<Longrightarrow> st_next s = length methods"
    and "\<And>res m a. st_returned s = Some res \<Longrightarrow> map_of (st_goroutines s) m = Some a \<Longrightarrow> a = Done"
    and "\<And>res. st_returned s = Some res \<Longrightarrow> res = par_err (st_par s)"
  using assms unfolding inv_def by blast+

lemma invI:
  assumes "st_next s \<le> length methods"
    and "map fst (st_goroutines s) = take (st_next s) methods"
    and "par_slots (st_par s) = length methods"
    and "par_held (st_par s) = sum_list (map holding (st_goroutines s))"
    and "map snd (st_sent s) = replicate (length (st_sent s)) params"
    and "distinct (map fst (st_sent s))"
    and "\<And>m. m \<in> set (map fst (st_sent s)) \<longleftrightarrow>
           (\<exists>a. map_of (st_goroutines s) m = Some a \<and> a \<noteq> Ready)"
    and "\<And>m a. par_err (st_par s) = None \<Longrightarrow> map_of (st_goroutines s) m = Some a \<Longrightarrow>
           replied a \<Longrightarrow> call m params = None"
    and "\<And>e. par_err (st_par s) = Some e \<Longrightarrow>
         \<exists>m a err. map_of (st_goroutines s) m = Some a \<and> replied a \<and>
            call m params = Some err \<and> e = m @ '': '' @ err"
    and "\<And>res. st_returned s = Some res \<Longrightarrow>
         st_next s = length methods \<and>
         (\<forall>m a. map_of (st_goroutines s) m = Some a \<longrightarrow> a = Done) \<and>
         res = par_err (st_par s)"
  shows "inv call params s"
  unfolding inv_def using assms by blast

lemma nth_not_in_take:
  assumes "distinct xs" "k < length xs"
  shows "xs ! k \<notin> set (take k xs)"
proof
  assume "xs ! k \<in> set (take k xs)"
  then obtain j where j: "j < k" "take k xs ! j = xs ! k"
    using assms(2) by (auto simp: in_set_conv_nth)
  then have "xs ! j = xs ! k" by simp
  with assms j show False by (simp add: nth_eq_iff_index_eq)
qed


lemma step_main_spawn:
  assumes i: "inv call params s" and n: "st_returned s = None" and l: "st_next s < length methods"
  shows "\<exists>s'. step call params Main s = Some s' \<and> inv call params s' \<and> work s' < work s"
proof -
  note d = invD[OF i]
  let ?gs = "st_goroutines s"
  have len: "length ?gs = st_next s"
    using arg_cong[OF d(2), of length] l by simp
  have "par_held (st_par s) \<le> st_next s"
    using d(4) held_bound[of ?gs] len by simp
  then have free: "par_held (st_par s) < par_slots (st_par s)" using d(3) l by simp
  let ?m = "methods ! st_next s"
  let ?s' = "s\<lparr>st_next := st_next s + 1, st_par := (st_par s)\<lparr>par_held := par_held (st_par s) + 1\<rparr>,
                 st_goroutines := ?gs @ [(?m, Ready)]\<rparr>"
  have st: "step call params Main s = Some ?s'"
    using n l free by (simp add: step_def Acquire_def)
  have "?m \<notin> set (take (st_next s) methods)"
    using nth_not_in_take[OF distinct_methods l] .
  moreover have "fst ` set ?gs = set (take (st_next s) methods)"
    using d(2) by (simp flip: set_map)
  ultimately have new: "map_of ?gs ?m = None"
    by (simp add: map_of_eq_None_iff)
  have mo: "map_of (?gs @ [(?m, Ready)]) = (map_of ?gs)(?m \<mapsto> Ready)"
    using new by (auto simp: map_add_def fun_eq_iff split: option.splits)
  have "inv call params ?s'"
  proof (rule invI)
    show "st_next ?s' \<le> length methods" using l by simp
    show "map fst (st_goroutines ?s') = take (st_next ?s') methods"
      using d(2) l by (simp add: take_Suc_conv_app_nth)
    show "par_slots (st_par ?s') = length methods" using d(3) by simp
    show "par_held (st_par ?s') = sum_list (map holding (st_goroutines ?s'))"
      using d(4) by (simp add: holding_def)
    show "map snd (st_sent ?s') = replicate (length (st_sent ?s')) params" using d(5) by simp
    show "distinct (map fst (st_sent ?s'))" using d(6) by simp
    show "m \<in> set (map fst (st_sent ?s')) \<longleftrightarrow>
           (\<exists>a. map_of (st_goroutines ?s') m = Some a \<and> a \<noteq> Ready)" for m
      using d(7)[of m] new by (auto simp add: mo simp del: map_of_append)
    show "call m params = None"
      if "par_err (st_par ?s') = None" "map_of (st_goroutines ?s') m = Some a" "replied a" for m a
      using that d(8)[of m a] by (simp add: mo replied_def del: map_of_append split: if_splits)
    show "\<exists>m a err. map_of (st_goroutines ?s') m = Some a \<and> replied a \<and>
            call m params = Some err \<and> e = m @ '': '' @ err"
      if "par_err (st_par ?s') = Some e" for e
    proof -
      from that d(9)[of e] obtain m a err where w: "map_of ?gs m = Some a" "replied a"
        "call m params = Some err" "e = m @ '': '' @ err" by auto
      with new have "m \<noteq> ?m" by auto
      with w show ?thesis by (simp add: mo del: map_of_append) blast
    qed
    show "st_next ?s' = length methods \<and>
         (\<forall>m a. map_of (st_goroutines ?s') m = Some a \<longrightarrow> a = Done) \<and>
         res = par_err (st_par ?s')" if "st_returned ?s' = Some res" for res
      using that n by simp
  qed
  moreover have "work ?s' < work s" using n l by (simp add: work_def remaining_def)
  ultimately show ?thesis using st by blast
qed


lemma step_main_wait:
  assumes i: "inv call params s" and n: "st_returned s = None" and l: "\<not> st_next s < length methods"
    and st: "step call params Main s = Some s'"
  shows "inv call params s' \<and> work s' < work s"
proof -
  note d = invD[OF i]
  from st n l have h: "par_held (st_par s) = 0" and s': "s' = s\<lparr>st_returned := Some (par_err (st_par s))\<rparr>"
    by (auto simp: step_def Wait_def split: if_splits)
  have dist: "distinct (map fst (st_goroutines s))" using d(2) distinct_methods by simp
  have alld: "a = Done" if "map_of (st_goroutines s) m = Some a" for m a
  proof -
    from that have "(m, a) \<in> set (st_goroutines s)" by (rule map_of_SomeD)
    with all_done[of "st_goroutines s" "(m, a)"] h d(4) show ?thesis by simp
  qed
  have nx: "st_next s = length methods" using d(1) l by simp
  have "inv call params s'"
    unfolding s'
  proof (rule invI)
    let ?s' = "s\<lparr>st_returned := Some (par_err (st_par s))\<rparr>"
    show "st_next ?s' \<le> length methods" using d(1) by simp
    show "map fst (st_goroutines ?s') = take (st_next ?s') methods" using d(2) by simp
    show "par_slots (st_par ?s') = length methods" using d(3) by simp
    show "par_held (st_par ?s') = sum_list (map holding (st_goroutines ?s'))" using d(4) by simp
    show "map snd (st_sent ?s') = replicate (length (st_sent ?s')) params" using d(5) by simp
    show "distinct (map fst (st_sent ?s'))" using d(6) by simp
    show "m \<in> set (map fst (st_sent ?s')) \<longleftrightarrow>
           (\<exists>a. map_of (st_goroutines ?s') m = Some a \<and> a \<noteq> Ready)" for m
      using d(7)[of m] by simp
    show "call m params = None"
      if "par_err (st_par ?s') = None" "map_of (st_goroutines ?s') m = Some a" "replied a" for m a
      using that d(8)[of m a] by simp
    show "\<exists>m a err. map_of (st_goroutines ?s') m = Some a \<and> replied a \<and>
            call m params = Some err \<and> e = m @ '': '' @ err"
      if "par_err (st_par ?s') = Some e" for e
      using that d(9)[of e] by simp
    show "st_next ?s' = length methods \<and>
         (\<forall>m a. map_of (st_goroutines ?s') m = Some a \<longrightarrow> a = Done) \<and>
         res = par_err (st_par ?s')" if "st_returned ?s' = Some res" for res
      using that nx alld by auto
  qed
  moreover have "work s' < work s" using n unfolding s' by (simp add: work_def)
  ultimately show ?thesis by blast
qed

lemma step_goroutine:
  assumes i: "inv call params s" and st: "step call params (Goroutine k) s = Some s'"
  shows "inv call params s' \<and> work s' < work s"
proof -
  note d = invD[OF i]
  let ?gs = "st_goroutines s"
  from st have k: "k < length ?gs" by (simp add: step_def split: if_splits)
  obtain m a where g: "?gs ! k = (m, a)" by (cases "?gs ! k")
  have dist: "distinct (map fst ?gs)" using d(2) distinct_methods by simp
  have mem: "(m, a) \<in> set ?gs" using k g nth_mem[of k ?gs] by simp
  have cur: "map_of ?gs m = Some a" using dist mem by simp
  have nret: "st_returned s = None" if "a \<noteq> Done"
  proof (cases "st_returned s")
    case None then show ?thesis by simp
  next
    case (Some res)
    from d(11)[OF Some cur] that show ?thesis by simp
  qed
  note mo = update_map_of[OF dist k g] and uf = update_fst[OF k g]
  show ?thesis
  proof (cases a)
    case Ready
    let ?gs' = "?gs[k := (m, Calling)]"
    let ?s' = "s\<lparr>st_goroutines := ?gs', st_sent := st_sent s @ [(m, params)]\<rparr>"
    have s': "s' = ?s'" using st k g Ready by (simp add: step_def)
    have hold: "sum_list (map holding ?gs') = sum_list (map holding ?gs)"
      using update_sum[OF k, of holding "(m, Calling)"] g Ready by (simp add: holding_def)
    have rem: "sum_list (map remaining ?gs') < sum_list (map remaining ?gs)"
      using update_sum[OF k, of remaining "(m, Calling)"] g Ready by (simp add: remaining_def)
    have fresh: "m \<notin> set (map fst (st_sent s))"
      using d(7)[of m] cur Ready by simp
    have "inv call params ?s'"
    proof (rule invI)
      show "st_next ?s' \<le> length methods" using d(1) by simp
      show "map fst (st_goroutines ?s') = take (st_next ?s') methods" using d(2) by (simp add: uf)
      show "par_slots (st_par ?s') = length methods" using d(3) by simp
      show "par_held (st_par ?s') = sum_list (map holding (st_goroutines ?s'))"
        using d(4) hold by simp
      show "map snd (st_sent ?s') = replicate (length (st_sent ?s')) params"
        using d(5) by (simp add: replicate_append_same)
      show "distinct (map fst (st_sent ?s'))" using d(6) fresh by simp
      show "x \<in> set (map fst (st_sent ?s')) \<longleftrightarrow>
             (\<exists>b. map_of (st_goroutines ?s') x = Some b \<and> b \<noteq> Ready)" for x
        using d(7)[of x] by (auto simp: mo)
      show "call x params = None"
        if "par_err (st_par ?s') = None" "map_of (st_goroutines ?s') x = Some b" "replied b" for x b
        using that d(8)[of x b] by (simp add: mo replied_def split: if_splits)
      show "\<exists>x b err. map_of (st_goroutines ?s') x = Some b \<and> replied b \<and>
              call x params = Some err \<and> e = x @ '': '' @ err"
        if "par_err (st_par ?s') = Some e" for e
      proof -
        from that d(9)[of e] obtain x b err where w: "map_of ?gs x = Some b" "replied b"
          "call x params = Some err" "e = x @ '': '' @ err" by auto
        with cur Ready have "x \<noteq> m" by (auto simp: replied_def)
        with w show ?thesis by (simp add: mo) blast
      qed
      show "st_next ?s' = length methods \<and>
           (\<forall>x b. map_of (st_goroutines ?s') x = Some b \<longrightarrow> b = Done) \<and>
           res = par_err (st_par ?s')" if "st_returned ?s' = Some res" for res
        using that nret Ready by simp
    qed
    moreover have "work ?s' < work s" using rem by (simp add: work_def)
    ultimately show ?thesis unfolding s' by blast
  next
    case Calling
    let ?gs' = "?gs[k := (m, Finishing)]"
    let ?par' = "(case call m params of Some err \<Rightarrow> Error (m @ '': '' @ err) (st_par s) | None \<Rightarrow> st_par s)"
    let ?s' = "s\<lparr>st_goroutines := ?gs', st_par := ?par'\<rparr>"
    have s': "s' = ?s'" using st k g Calling by (simp add: step_def)
    have hold: "sum_list (map holding ?gs') = sum_list (map holding ?gs)"
      using update_sum[OF k, of holding "(m, Finishing)"] g Calling by (simp add: holding_def)
    have rem: "sum_list (map remaining ?gs') < sum_list (map remaining ?gs)"
      using update_sum[OF k, of remaining "(m, Finishing)"] g Calling by (simp add: remaining_def)
    have par: "par_slots ?par' = par_slots (st_par s)" "par_held ?par' = par_held (st_par s)"
      by (simp_all add: Error_def split: option.splits)
    have "inv call params ?s'"
    proof (rule invI)
      show "st_next ?s' \<le> length methods" using d(1) by simp
      show "map fst (st_goroutines ?s') = take (st_next ?s') methods" using d(2) by (simp add: uf)
      show "par_slots (st_par ?s') = length methods" using d(3) par by simp
      show "par_held (st_par ?s') = sum_list (map holding (st_goroutines ?s'))"
        using d(4) hold par by simp
      show "map snd (st_sent ?s') = replicate (length (st_sent ?s')) params" using d(5) by simp
      show "distinct (map fst (st_sent ?s'))" using d(6) by simp
      show "x \<in> set (map fst (st_sent ?s')) \<longleftrightarrow>
             (\<exists>b. map_of (st_goroutines ?s') x = Some b \<and> b \<noteq> Ready)" for x
        using d(7)[of x] cur Calling by (auto simp: mo)
      show "call x params = None"
        if "par_err (st_par ?s') = None" "map_of (st_goroutines ?s') x = Some b" "replied b" for x b
      proof -
        from that(1) have c: "call m params = None" and pn: "par_err (st_par s) = None"
          by (auto simp: Error_def split: option.splits)
        show ?thesis
        proof (cases "x = m")
          case True with c show ?thesis by simp
        next
          case False
          with that(2) have "map_of ?gs x = Some b" by (simp add: mo)
          from d(8)[OF pn this that(3)] show ?thesis .
        qed
      qed
      show "\<exists>x b err. map_of (st_goroutines ?s') x = Some b \<and> replied b \<and>
              call x params = Some err \<and> e = x @ '': '' @ err"
        if se: "par_err (st_par ?s') = Some e" for e
      proof (cases "par_err (st_par s)")
        case (Some e0)
        then have "e = e0" using se by (simp add: Error_def split: option.splits)
        with d(9)[OF Some] obtain x b err where w: "map_of ?gs x = Some b" "replied b"
          "call x params = Some err" "e = x @ '': '' @ err" by auto
        with cur Calling have "x \<noteq> m" by (auto simp: replied_def)
        with w show ?thesis by (simp add: mo) blast
      next
        case None
        with se obtain err where "call m params = Some err" "e = m @ '': '' @ err"
          by (auto simp: Error_def split: option.splits)
        then have "map_of ?gs' m = Some Finishing \<and> replied Finishing \<and>
              call m params = Some err \<and> e = m @ '': '' @ err"
          by (simp add: mo replied_def)
        moreover have "st_goroutines ?s' = ?gs'" by simp
        ultimately show ?thesis by metis
      qed
      show "st_next ?s' = length methods \<and>
           (\<forall>x b. map_of (st_goroutines ?s') x = Some b \<longrightarrow> b = Done) \<and>
           res = par_err (st_par ?s')" if "st_returned ?s' = Some res" for res
        using that nret Calling by simp
    qed
    moreover have "work ?s' < work s" using rem by (simp add: work_def)
    ultimately show ?thesis unfolding s' by blast
  next
    case Finishing
    let ?gs' = "?gs[k := (m, Done)]"
    let ?r = "(st_par s)\<lparr>par_held := par_held (st_par s) - 1\<rparr>"
    let ?s' = "s\<lparr>st_goroutines := ?gs', st_par := ?r\<rparr>"
    from st k g Finishing have pos: "0 < par_held (st_par s)" and s': "s' = ?s'"
      by (auto simp: step_def Release_def split: option.splits if_splits)
    have hold: "sum_list (map holding ?gs') + 1 = sum_list (map holding ?gs)"
      using update_sum[OF k, of holding "(m, Done)"] g Finishing by (simp add: holding_def)
    have rem: "sum_list (map remaining ?gs') < sum_list (map remaining ?gs)"
      using update_sum[OF k, of remaining "(m, Done)"] g Finishing by (simp add: remaining_def)
    have "inv call params ?s'"
    proof (rule invI)
      show "st_next ?s' \<le> length methods" using d(1) by simp
      show "map fst (st_goroutines ?s') = take (st_next ?s') methods" using d(2) by (simp add: uf)
      show "par_slots (st_par ?s') = length methods" using d(3) by simp
      show "par_held (st_par ?s') = sum_list (map holding (st_goroutines ?s'))"
        using d(4) hold pos by simp
      show "map snd (st_sent ?s') = replicate (length (st_sent ?s')) params" using d(5) by simp
      show "distinct (map fst (st_sent ?s'))" using d(6) by simp
      show "x \<in> set (map fst (st_sent ?s')) \<longleftrightarrow>
             (\<exists>b. map_of (st_goroutines ?s') x = Some b \<and> b \<noteq> Ready)" for x
        using d(7)[of x] cur Finishing by (auto simp: mo)
      show "call x params = None"
        if "par_err (st_par ?s') = None" "map_of (st_goroutines ?s') x = Some b" "replied b" for x b
      proof (cases "x = m")
        case True
        from that(1) have "par_err (st_par s) = None" by simp
        from d(8)[OF this cur] Finishing True show ?thesis by (simp add: replied_def)
      next
        case False
        with that(2) have "map_of ?gs x = Some b" by (simp add: mo)
        with that d(8)[of x b] show ?thesis by simp
      qed
      show "\<exists>x b err. map_of (st_goroutines ?s') x = Some b \<and> replied b \<and>
              call x params = Some err \<and> e = x @ '': '' @ err"
        if se: "par_err (st_par ?s') = Some e" for e
      proof -
        from se have "par_err (st_par s) = Some e" by simp
        from d(9)[OF this] obtain x b err where w: "map_of ?gs x = Some b" "replied b"
          "call x params = Some err" "e = x @ '': '' @ err" by auto
        have "map_of ?gs' x = Some (if x = m then Done else b) \<and> replied (if x = m then Done else b)"
          using w by (simp add: mo replied_def)
        moreover have "st_goroutines ?s' = ?gs'" by simp
        ultimately show ?thesis using w(3,4) by metis
      qed
      show "st_next ?s' = length methods \<and>
           (\<forall>x b. map_of (st_goroutines ?s') x = Some b \<longrightarrow> b = Done) \<and>
           res = par_err (st_par ?s')" if "st_returned ?s' = Some res" for res
        using that nret Finishing by simp
    qed
    moreover have "work ?s' < work s" using rem by (simp add: work_def)
    ultimately show ?thesis unfolding s' by blast
  next
    case Done
    with st k g show ?thesis by (simp add: step_def)
  qed
qed


lemma step_inv:
  assumes i: "inv call params s" and st: "step call params t s = Some s'"
  shows "inv call params s' \<and> work s' < work s"
proof (cases t)
  case Main
  with st have n: "st_returned s = None" by (simp add: step_def split: if_splits)
  show ?thesis
  proof (cases "st_next s < length methods")
    case True
    from step_main_spawn[OF i n True] st Main show ?thesis by auto
  next
    case False
    from step_main_wait[OF i n False] st Main show ?thesis by auto
  qed
next
  case (Goroutine k)
  with step_goroutine[OF i] st show ?thesis by auto
qed

lemma run_inv:
  "inv call params s \<Longrightarrow> inv call params (run call params ts s) \<and> work (run call params ts s) \<le> work s"
proof (induction ts arbitrary: s)
  case Nil
  then show ?case by simp
next
  case (Cons t ts)
  show ?case
  proof (cases "step call params t s")
    case None
    with Cons show ?thesis by simp
  next
    case (Some s')
    from step_inv[OF Cons.prems Some] Cons.IH[of s'] Some show ?thesis by fastforce
  qed
qed

lemma run_progress:
  "inv call params s \<Longrightarrow> t \<in> set ts \<Longrightarrow> step call params t s \<noteq> None \<Longrightarrow>
   work (run call params ts s) < work s"
proof (induction ts)
  case Nil
  then show ?case by simp
next
  case (Cons u ts)
  show ?case
  proof (cases "step call params u s")
    case None
    with Cons.prems have "t \<in> set ts" by auto
    with Cons None show ?thesis by simp
  next
    case (Some s')
    from step_inv[OF Cons.prems(1) Some] have "inv call params s'" "work s' < work s" by auto
    with run_inv[of call params s' ts] Some show ?thesis by simp
  qed
qed

lemma run_returned:
  "st_returned s \<noteq> None \<Longrightarrow> st_returned (run call params ts s) \<noteq> None"
proof (induction ts arbitrary: s)
  case Nil
  then show ?case by simp
next
  case (Cons t ts)
  have "st_returned (case step call params t s of None \<Rightarrow> s | Some s' \<Rightarrow> s') \<noteq> None"
    using Cons.prems
    by (cases t) (auto simp: step_def Release_def split: option.splits if_splits prod.splits gstate.splits)
  from Cons.IH[OF this] show ?case by simp
qed

lemma run_append: "run call params (xs @ ys) s = run call params ys (run call params xs s)"
  by (induction xs arbitrary: s) auto

lemma deadlock_free:
  assumes i: "inv call params s" and n: "st_returned s = None"
  shows "\<exists>t \<in> set threads. step call params t s \<noteq> None"
proof (cases "st_next s < length methods")
  case True
  from step_main_spawn[OF i n True] show ?thesis by (auto simp: threads_def)
next
  case False
  note d = invD[OF i]
  let ?gs = "st_goroutines s"
  have len: "length ?gs = length methods"
    using arg_cong[OF d(2), of length] d(1) False by simp
  show ?thesis
  proof (cases "\<forall>g \<in> set ?gs. snd g = Done")
    case True
    then have "sum_list (map holding ?gs) = 0" by (induction ?gs) (auto simp: holding_def)
    with d(4) have "step call params Main s \<noteq> None"
      using n False by (simp add: step_def Wait_def)
    then show ?thesis by (auto simp: threads_def)
  next
    case busy: False
    then obtain k where k: "k < length ?gs" "snd (?gs ! k) \<noteq> Done"
      by (auto simp: in_set_conv_nth)
    obtain m a where g: "?gs ! k = (m, a)" by (cases "?gs ! k")
    have "0 < par_held (st_par s)"
      using held_positive[of "?gs ! k" ?gs] k d(4) by simp
    then have "step call params (Goroutine k) s \<noteq> None"
      using k g by (cases a) (auto simp: step_def Release_def)
    moreover have "Goroutine k \<in> set threads" using k len by (simp add: threads_def)
    ultimately show ?thesis by blast
  qed
qed

lemma rounds_return:
  "inv call params s \<Longrightarrow> work s \<le> n \<Longrightarrow>
   st_returned (run call params (concat (replicate n threads)) s) \<noteq> None"
proof (induction n arbitrary: s)
  case 0
  then show ?case by (simp add: work_def split: if_splits)
next
  case (Suc n)
  show ?case
  proof (cases "st_returned s")
    case (Some res)
    then show ?thesis by (intro run_returned) simp
  next
    case None
    from deadlock_free[OF Suc.prems(1) None] obtain t where
      "t \<in> set threads" "step call params t s \<noteq> None" by blast
    from run_progress[OF Suc.prems(1) this] Suc.prems(2)
    have "work (run call params threads s) \<le> n" by simp
    moreover have "inv call params (run call params threads s)"
      using run_inv[OF Suc.prems(1)] by blast
    ultimately have "st_returned (run call params (concat (replicate n threads))
        (run call params threads s)) \<noteq> None" by (rule Suc.IH[rotated])
    then show ?thesis by (simp add: run_append)
  qed
qed

lemma turns_return:
  "st_returned (run call params (sched @ turns) start) \<noteq> None"
proof -
  have "inv call params (run call params sched start)"
    and "work (run call params sched start) \<le> 4 * length methods + 1"
    using run_inv[OF inv_start, of call params sched] by (simp_all add: work_start)
  from rounds_return[OF this] show ?thesis by (simp add: run_append turns_def)
qed

lemma returned_state:
  assumes i: "inv call params s" and r: "st_returned s = Some res"
  shows "length (st_goroutines s) = length methods"
    and "\<forall>g \<in> set (st_goroutines s). snd g = Done"
    and "set (map fst (st_sent s)) = set methods"
    and "distinct (map fst (st_sent s))"
    and "map snd (st_sent s) = replicate (length methods) params"
    and "res = None \<longleftrightarrow> (\<forall>m \<in> set methods. call m params = None)"
    and "\<forall>e. res = Some e \<longrightarrow>
           (\<exists>m \<in> set methods. \<exists>err. call m params = Some err \<and> e = m @ '': '' @ err)"
proof -
  note d = invD[OF i]
  let ?gs = "st_goroutines s"
  have nx: "st_next s = length methods" using d(10)[OF r] .
  have fs: "map fst ?gs = methods" using d(2) nx by simp
  show len: "length ?gs = length methods" using arg_cong[OF fs, of length] by simp
  have dist: "distinct (map fst ?gs)" using fs distinct_methods by simp
  have mo: "map_of ?gs m = Some a \<longleftrightarrow> (m, a) \<in> set ?gs" for m a using dist by simp
  show dn: "\<forall>g \<in> set ?gs. snd g = Done"
  proof
    fix g assume "g \<in> set ?gs"
    then have "map_of ?gs (fst g) = Some (snd g)" by (simp add: mo)
    from d(11)[OF r this] show "snd g = Done" .
  qed
  have dom: "(\<exists>a. map_of ?gs m = Some a) \<longleftrightarrow> m \<in> set methods" for m
  proof -
    have "(\<exists>a. map_of ?gs m = Some a) \<longleftrightarrow> m \<in> fst ` set ?gs"
      by (metis domIff dom_map_of_conv_image_fst option.exhaust option.distinct(1))
    also have "fst ` set ?gs = set methods" using fs by (simp flip: set_map)
    finally show ?thesis .
  qed
  have st: "map_of ?gs m = Some a \<Longrightarrow> a = Done" for m a using d(11)[OF r] .
  show sent: "set (map fst (st_sent s)) = set methods"
  proof (intro set_eqI)
    fix m
    have "m \<in> set (map fst (st_sent s)) \<longleftrightarrow> (\<exists>a. map_of ?gs m = Some a \<and> a \<noteq> Ready)"
      using d(7)[of m] .
    also have "\<dots> \<longleftrightarrow> (\<exists>a. map_of ?gs m = Some a)" using st by (metis gstate.distinct(5))
    also have "\<dots> \<longleftrightarrow> m \<in> set methods" using dom .
    finally show "m \<in> set (map fst (st_sent s)) \<longleftrightarrow> m \<in> set methods" .
  qed
  show ds: "distinct (map fst (st_sent s))" using d(6) .
  have "card (set (map fst (st_sent s))) = length (map fst (st_sent s))"
    using ds by (rule distinct_card)
  moreover have "card (set methods) = length methods"
    using distinct_methods by (rule distinct_card)
  ultimately have "length (st_sent s) = length methods" using sent by simp
  with d(5) show "map snd (st_sent s) = replicate (length methods) params" by simp
  have res: "res = par_err (st_par s)" using d(12)[OF r] .
  show "res = None \<longleftrightarrow> (\<forall>m \<in> set methods. call m params = None)"
  proof
    assume "res = None"
    then have pn: "par_err (st_par s) = None" using res by simp
    show "\<forall>m \<in> set methods. call m params = None"
    proof
      fix m assume "m \<in> set methods"
      then obtain a where a: "map_of ?gs m = Some a" using dom by blast
      with st have "replied a" by (simp add: replied_def)
      from d(8)[OF pn a this] show "call m params = None" .
    qed
  next
    assume all: "\<forall>m \<in> set methods. call m params = None"
    show "res = None"
    proof (cases res)
      case None then show ?thesis .
    next
      case (Some e)
      with res have "par_err (st_par s) = Some e" by simp
      from d(9)[OF this] obtain m a err where "map_of ?gs m = Some a" "call m params = Some err"
        by blast
      with dom all show ?thesis by force
    qed
  qed
  show "\<forall>e. res = Some e \<longrightarrow>
           (\<exists>m \<in> set methods. \<exists>err. call m params = Some err \<and> e = m @ '': '' @ err)"
  proof (intro allI impI)
    fix e assume "res = Some e"
    with res have "par_err (st_par s) = Some e" by simp
    from d(9)[OF this] obtain m a err where "map_of ?gs m = Some a" "call m params = Some err"
      "e = m @ '': '' @ err" by blast
    with dom show "\<exists>m \<in> set methods. \<exists>err. call m params = Some err \<and> e = m @ '': '' @ err"
      by blast
  qed
qed

lemma threads_eval: "threads = [Main, Goroutine 0, Goroutine 1, Goroutine 2]"
  by (simp add: threads_def length_methods upt_rec)



subsection \<open>The globals are restored\<close>

lemma runTests_frame: "fst (runTests tests g) = g"
  by (induction tests) (auto simp: case_prod_beta)

lemma runTests_seen: "v \<in> set (fst (snd (runTests tests g))) \<Longrightarrow> v = LogTrackedErrors g"
  by (induction tests) (auto simp: case_prod_beta split: if_splits)

text \<open>
  C6: whether the benchmark is skipped, fails in a test or returns, the globals of package
  xlang are afterwards what they were before, every sub-benchmark finds
  \<open>LogTrackedErrors\<close> false, and the toggle is initially true.
\<close>

theorem BenchmarkStress_restores_globals:
  "fst (BenchmarkStress short githubVFS tests g) = g \<and>
   (\<forall>v \<in> set (fst (snd (BenchmarkStress short githubVFS tests g))). v = False) \<and>
   LogTrackedErrors (xlangInit vfs) = True"
proof -
  let ?g2 = "g\<lparr>LogTrackedErrors := False, NewRemoteRepoVFS := githubVFS\<rparr>"
  obtain g3 seen ex where r: "runTests tests ?g2 = (g3, seen, ex)" by (cases "runTests tests ?g2")
  have g3: "g3 = ?g2" using runTests_frame[of tests ?g2] r by simp
  have seen: "\<forall>v \<in> set seen. v = False" using runTests_seen[of _ tests ?g2] r by auto
  show ?thesis using g3 seen r by (auto simp: BenchmarkStress_def Let_def xlangInit_def)
qed

theorem BenchmarkStress_restores_globals_witness:
  "fst (BenchmarkStress False ''github'' [True, False, True] (xlangInit ''gitserver'')) =
     xlangInit ''gitserver'' \<and>
   snd (BenchmarkStress False ''github'' [True, False, True] (xlangInit ''gitserver'')) =
     ([False], Failed) \<and>
   BenchmarkStress False ''github'' [True, True, True] (xlangInit ''gitserver'') =
     (xlangInit ''gitserver'', [False, False, False], Returned_normally) \<and>
   BenchmarkStress True ''github'' [True, True, True] (xlangInit ''gitserver'') =
     (xlangInit ''gitserver'', [], Skipped)"
proof -
  from BenchmarkStress_restores_globals[of False "''github''" "[True, False, True]"
      "xlangInit ''gitserver''" "''gitserver''"]
  have a: "fst (BenchmarkStress False ''github'' [True, False, True] (xlangInit ''gitserver'')) =
     xlangInit ''gitserver''"
    by (elim conjE)
  have b: "snd (BenchmarkStress False ''github'' [True, False, True] (xlangInit ''gitserver'')) =
     ([False], Failed)"
    by (simp add: BenchmarkStress_def xlangInit_def Let_def)
  have c: "BenchmarkStress False ''github'' [True, True, True] (xlangInit ''gitserver'') =
     (xlangInit ''gitserver'', [False, False, False], Returned_normally)"
    by (simp add: BenchmarkStress_def xlangInit_def Let_def)
  have d: "BenchmarkStress True ''github'' [True, True, True] (xlangInit ''gitserver'') =
     (xlangInit ''gitserver'', [], Skipped)"
    by (simp add: BenchmarkStress_def)
  from a b c d show ?thesis by (intro conjI)
qed

subsection \<open>The handshake comes first\<close>

text \<open>
  C7: on the connection of an iteration the first request is \<open>initialize\<close>, carrying the
  string of the workspace root as root path and the mode; if it fails nothing else is sent;
  a position request is never the first request and is sent only after \<open>initialize\<close>
  succeeded.
\<close>

theorem iteration_initialize_first:
  "fst (iteration initReply call sched interleave rootString docURI root mode pos) \<noteq> [] \<and>
   hd (fst (iteration initReply call sched interleave rootString docURI root mode pos)) =
     (''initialize'', ClientProxyInitializeParams (rootString root) mode) \<and>
   (initReply \<noteq> None \<longrightarrow>
      fst (iteration initReply call sched interleave rootString docURI root mode pos) =
        [(''initialize'', ClientProxyInitializeParams (rootString root) mode)]) \<and>
   (\<forall>i m p. i < length (fst (iteration initReply call sched interleave rootString docURI root mode pos)) \<and>
        fst (iteration initReply call sched interleave rootString docURI root mode pos) ! i =
          (m, PositionParams p) \<longrightarrow> 0 < i \<and> initReply = None)"
  by (cases initReply) (auto simp: iteration_def Let_def nth_Cons split: nat.splits)

theorem iteration_initialize_first_witness:
  "fst (iteration (Some ''no such mode'') hoverFails (\<lambda>path line character. []) id id filePath
      ''git://github.com/gorilla/mux?rev'' ''go'' [(''mux.go'', [(0, 0)])]) =
     [(''initialize'', ClientProxyInitializeParams ''git://github.com/gorilla/mux?rev'' ''go'')] \<and>
   map fst (fst (iteration None hoverFails (\<lambda>path line character. []) id id filePath
      ''git://github.com/gorilla/mux?rev'' ''go'' [(''mux.go'', [(0, 0)])])) =
     [''initialize'', ''textDocument/definition'', ''textDocument/hover'', ''textDocument/references'']"
proof -
  have n: "Some ''no such mode'' \<noteq> (None :: error option)" by simp
  from iteration_initialize_first[of "Some ''no such mode''" hoverFails "\<lambda>path line character. []"
      id id filePath "''git://github.com/gorilla/mux?rev''" "''go''" "[(''mux.go'', [(0, 0)])]"] n
  have a: "fst (iteration (Some ''no such mode'') hoverFails (\<lambda>path line character. []) id id filePath
      ''git://github.com/gorilla/mux?rev'' ''go'' [(''mux.go'', [(0, 0)])]) =
     [(''initialize'', ClientProxyInitializeParams ''git://github.com/gorilla/mux?rev'' ''go'')]"
    by simp
  have b: "map fst (fst (iteration None hoverFails (\<lambda>path line character. []) id id filePath
      ''git://github.com/gorilla/mux?rev'' ''go'' [(''mux.go'', [(0, 0)])])) =
     [''initialize'', ''textDocument/definition'', ''textDocument/hover'', ''textDocument/references'']"
    by (simp add: iteration_def jobs_def doStressTestOpForPosition_def turns_def threads_eval
        length_methods start_def step_def NewRun_def Acquire_def Release_def Error_def Wait_def
        hoverFails_def Let_def numeral_eq_Suc methods_def)
  from a b show ?thesis by blast
qed

section \<open>Properties of the session registry and the idle reaper\<close>

lemma reap_lookup:
  "reap reg olderThan now key =
     (case reg key of
        None \<Rightarrow> None
      | Some s \<Rightarrow> if now - lastActivityAt s > olderThan \<and> inFlightCount s = 0 then None else Some s)"
  by (simp add: reap_def listIdleOlderThan_def remove_def split: option.splits)

lemma reap_keeps_busy:
  "reap reg olderThan now key = Some s \<Longrightarrow>
   reg key = Some s \<and> \<not> (now - lastActivityAt s > olderThan \<and> inFlightCount s = 0)"
  by (auto simp: reap_lookup split: option.splits if_splits)

text \<open>
  C4 as stated fails: a Session with a request in flight is not among the idle Sessions, so
  a reap with threshold 0 leaves it in the registry, and the next handshake for its key
  gets that Session, with its cache, and spawns nothing.
\<close>

theorem reap_keeps_session_in_flight:
  "handshake (reap [(''go'', muxRoot) \<mapsto> busySession] 0 9) ''go'' muxRoot 10 =
     (reap [(''go'', muxRoot) \<mapsto> busySession] 0 9, busySession, False) \<and>
   cache busySession ''mux.go'' = Some ''package mux''"
  by (simp add: handshake_def getOrCreate_def reap_lookup busySession_def)

text \<open>
  C4, amended: after a reap with threshold 0, a handshake for a previously used key whose
  Session had no request in flight and was last active before the reap spawns a new
  Session, created at the time of the handshake, with no request in flight and an empty
  filesystem cache, and publishes it under the key.
\<close>

theorem handshake_after_reap_spawns_fresh:
  assumes used: "reg (mode, root) = Some s"
    and quiet: "inFlightCount s = 0"
    and before: "lastActivityAt s < now"
  shows "handshake (reap reg 0 now) mode root now' =
           ((reap reg 0 now)((mode, root) \<mapsto> newSession (mode, root) now'),
            newSession (mode, root) now', True) \<and>
         cache (newSession (mode, root) now') = Map.empty \<and>
         createdAt (newSession (mode, root) now') = now' \<and>
         inFlightCount (newSession (mode, root) now') = 0"
proof -
  have "reap reg 0 now (mode, root) = None"
    using used quiet before by (simp add: reap_lookup)
  then show ?thesis by (simp add: handshake_def getOrCreate_def newSession_def)
qed

theorem handshake_after_reap_spawns_fresh_witness:
  "[(''go'', muxRoot) \<mapsto> idleSession] (''go'', muxRoot) = Some idleSession \<and>
   inFlightCount idleSession = 0 \<and> lastActivityAt idleSession < 9 \<and>
   snd (handshake (reap [(''go'', muxRoot) \<mapsto> idleSession] 0 9) ''go'' muxRoot 10) =
     (newSession (''go'', muxRoot) 10, True) \<and>
   cache (newSession (''go'', muxRoot) 10) = Map.empty"
proof -
  have u: "[(''go'', muxRoot) \<mapsto> idleSession] (''go'', muxRoot) = Some idleSession" by simp
  have q: "inFlightCount idleSession = 0" and b: "lastActivityAt idleSession < 9"
    by (simp_all add: idleSession_def)
  from handshake_after_reap_spawns_fresh[of "[(''go'', muxRoot) \<mapsto> idleSession]" "''go''" muxRoot
      idleSession 9 10, OF u q b]
  have "snd (handshake (reap [(''go'', muxRoot) \<mapsto> idleSession] 0 9) ''go'' muxRoot 10) =
     (newSession (''go'', muxRoot) 10, True)"
    and "cache (newSession (''go'', muxRoot) 10) = Map.empty"
    by simp_all
  with u q b show ?thesis by (intro conjI)
qed

text \<open>
  C5 as stated fails: a Session that was active at the very time of the first call has been
  idle for a duration of 0, which does not exceed the threshold 0, so the first reap leaves
  it in the registry; at a later time it has been idle for longer, and the second reap, with
  no traffic in between, removes it.
\<close>

theorem reap_zero_second_call_removes:
  "reap [(''go'', muxRoot) \<mapsto> justUsedSession] 0 9 (''go'', muxRoot) = Some justUsedSession \<and>
   listIdleOlderThan (reap [(''go'', muxRoot) \<mapsto> justUsedSession] 0 9) 0 12 (''go'', muxRoot) \<and>
   reap (reap [(''go'', muxRoot) \<mapsto> justUsedSession] 0 9) 0 12 (''go'', muxRoot) = None"
  by (simp add: reap_lookup listIdleOlderThan_def justUsedSession_def)

text \<open>
  C5, amended: when every Session without a request in flight was last active before the
  first call, a second reap with threshold 0, at whatever time, with the registry untouched
  in between, changes nothing: after the first call no Session is idle, so none is left to
  reap, and the registry after the second call is the registry after the first.
\<close>

theorem reap_zero_twice:
  assumes before: "\<forall>key s. reg key = Some s \<and> inFlightCount s = 0 \<longrightarrow> lastActivityAt s < now"
  shows "reap (reap reg 0 now) 0 now' = reap reg 0 now \<and>
         (\<forall>key. \<not> listIdleOlderThan (reap reg 0 now) 0 now' key)"
proof -
  have none: "\<not> listIdleOlderThan (reap reg 0 now) 0 now' key" for key
  proof (cases "reap reg 0 now key")
    case None
    then show ?thesis by (simp add: listIdleOlderThan_def)
  next
    case (Some s)
    from reap_keeps_busy[OF Some]
    have r: "reg key = Some s" and k: "\<not> (now - lastActivityAt s > 0 \<and> inFlightCount s = 0)"
      by simp_all
    from before r have "inFlightCount s = 0 \<longrightarrow> lastActivityAt s < now" by blast
    with k have "inFlightCount s \<noteq> 0" by auto
    with Some show ?thesis by (simp add: listIdleOlderThan_def)
  qed
  then have "reap (reap reg 0 now) 0 now' = reap reg 0 now"
    by (intro ext) (simp add: reap_def)
  with none show ?thesis by blast
qed

theorem reap_zero_twice_witness:
  "reap (reap [(''go'', muxRoot) \<mapsto> idleSession] 0 9) 0 12 = Map.empty \<and>
   reap [(''go'', muxRoot) \<mapsto> idleSession] 0 9 = Map.empty \<and>
   reap (reap [(''go'', muxRoot) \<mapsto> busySession] 0 9) 0 12 (''go'', muxRoot) = Some busySession"
proof -
  have a: "reap [(''go'', muxRoot) \<mapsto> idleSession] 0 9 = Map.empty"
    by (intro ext) (simp add: reap_lookup idleSession_def)
  have h: "\<forall>key s. [(''go'', muxRoot) \<mapsto> idleSession] key = Some s \<and> inFlightCount s = 0 \<longrightarrow>
      lastActivityAt s < 9"
    by (simp add: idleSession_def)
  have h': "\<forall>key s. [(''go'', muxRoot) \<mapsto> busySession] key = Some s \<and> inFlightCount s = 0 \<longrightarrow>
      lastActivityAt s < 9"
    by (simp add: busySession_def)
  from reap_zero_twice[OF h, of 12]
  have "reap (reap [(''go'', muxRoot) \<mapsto> idleSession] 0 9) 0 12 =
        reap [(''go'', muxRoot) \<mapsto> idleSession] 0 9"
    by (elim conjE)
  with a have b: "reap (reap [(''go'', muxRoot) \<mapsto> idleSession] 0 9) 0 12 = Map.empty"
    by (simp only:)
  from reap_zero_twice[OF h', of 12]
  have "reap (reap [(''go'', muxRoot) \<mapsto> busySession] 0 9) 0 12 =
        reap [(''go'', muxRoot) \<mapsto> busySession] 0 9"
    by (elim conjE)
  then have "reap (reap [(''go'', muxRoot) \<mapsto> busySession] 0 9) 0 12 (''go'', muxRoot) =
        reap [(''go'', muxRoot) \<mapsto> busySession] 0 9 (''go'', muxRoot)"
    by (simp only:)
  also have "\<dots> = Some busySession" by (simp add: reap_lookup busySession_def)
  finally have c: "reap (reap [(''go'', muxRoot) \<mapsto> busySession] 0 9) 0 12 (''go'', muxRoot) =
        Some busySession" .
  from b a c show ?thesis by (intro conjI)
qed

end
